theory Spec2Isabelle
  imports Complex_Main
begin

section \<open>Strings\<close>

text \<open>
  A JavaScript string is a sequence of UTF-16 code units. The model takes a text as a
  \<^typ>\<open>string\<close> whose characters are the code units below 256 (the Latin-1 range), so
  \<open>length\<close>, \<open>take\<close> and \<open>drop\<close> are \<open>.length\<close> and \<open>.slice\<close>. None of the
  regular expressions of the program has the \<open>u\<close> flag: they work on code units too.
\<close>

definition is_space :: "char \<Rightarrow> bool" where
  \<comment> \<open>The class \<open>\s\<close> (and what \<open>trim\<close> strips): TAB, LF, VT, FF, CR, SP, NBSP.\<close>
  "is_space c = (of_char c \<in> {9, 10, 11, 12, 13, 32, 160 :: nat})"

definition is_digit :: "char \<Rightarrow> bool" where
  \<comment> \<open>The class \<open>\d\<close>.\<close>
  "is_digit c = (48 \<le> (of_char c :: nat) \<and> (of_char c :: nat) \<le> 57)"

definition is_lower :: "char \<Rightarrow> bool" where
  \<comment> \<open>The class \<open>[a-z]\<close>.\<close>
  "is_lower c = (97 \<le> (of_char c :: nat) \<and> (of_char c :: nat) \<le> 122)"

definition is_upper :: "char \<Rightarrow> bool" where
  \<comment> \<open>The class \<open>[A-Z]\<close>.\<close>
  "is_upper c = (65 \<le> (of_char c :: nat) \<and> (of_char c :: nat) \<le> 90)"

definition lower_char :: "char \<Rightarrow> char" where
  \<comment> \<open>\<open>toLowerCase\<close> on one code unit below 256: A-Z, and the accented capitals
      U+00C0..U+00DE but the multiplication sign U+00D7, move up by 32.\<close>
  "lower_char c =
     (let n = (of_char c :: nat)
      in if (65 \<le> n \<and> n \<le> 90) \<or> (192 \<le> n \<and> n \<le> 222 \<and> n \<noteq> 215)
         then char_of (n + 32) else c)"

definition toLowerCase :: "string \<Rightarrow> string" where
  "toLowerCase s = map lower_char s"

definition upper_char :: "char \<Rightarrow> char" where
  \<comment> \<open>\<open>toUpperCase\<close> on a-z; the program applies it to the first letter of
      \<open>create\<close>, \<open>modify\<close> and \<open>delete\<close> only.\<close>
  "upper_char c = (if is_lower c then char_of ((of_char c :: nat) - 32) else c)"

fun startsWith :: "string \<Rightarrow> string \<Rightarrow> bool" where
  "startsWith s [] = True"
| "startsWith [] (p # ps) = False"
| "startsWith (c # cs) (p # ps) = (c = p \<and> startsWith cs ps)"

fun str_includes :: "string \<Rightarrow> string \<Rightarrow> bool" where
  \<comment> \<open>\<open>s.includes(p)\<close>: \<open>p\<close> occurs in \<open>s\<close>.\<close>
  "str_includes [] p = (p = [])"
| "str_includes (c # cs) p = (startsWith (c # cs) p \<or> str_includes cs p)"

definition trim :: "string \<Rightarrow> string" where
  "trim s = rev (dropWhile is_space (rev (dropWhile is_space s)))"

definition digit_char :: "nat \<Rightarrow> char" where
  "digit_char d = char_of (48 + d)"

fun natToString :: "nat \<Rightarrow> string" where
  \<comment> \<open>A non-negative integer in a template literal: its decimal digits.\<close>
  "natToString n =
     (if n < 10 then [digit_char n] else natToString (n div 10) @ [digit_char (n mod 10)])"

declare natToString.simps [simp del]

section \<open>Regular expressions\<close>

text \<open>
  The patterns of the program, as data, and the backtracking matcher of JavaScript as a
  list of successes: \<open>rmatch r st\<close> lists the states in which a match of \<open>r\<close> that
  starts in \<open>st\<close> can end, in the order in which backtracking tries them. The first one
  is the match that \<open>exec\<close> reports. Repetition is over character classes only, which is
  all the program uses.
\<close>

datatype regex =
    Lit string                          \<comment> \<open>the characters themselves\<close>
  | LitI string                         \<comment> \<open>the same under the \<open>i\<close> flag\<close>
  | Plus "char \<Rightarrow> bool"                  \<comment> \<open>\<open>[..]+\<close>, greedy\<close>
  | PlusLazy "char \<Rightarrow> bool"              \<comment> \<open>\<open>[..]+?\<close>\<close>
  | Star "char \<Rightarrow> bool"                  \<comment> \<open>\<open>[..]*\<close>, greedy\<close>
  | Rep nat nat "char \<Rightarrow> bool"           \<comment> \<open>\<open>[..]{m,n}\<close>, greedy\<close>
  | Seq regex regex
  | Alt regex regex                     \<comment> \<open>\<open>r|s\<close>\<close>
  | Opt regex                           \<comment> \<open>\<open>(?:r)?\<close>, greedy\<close>
  | Group regex                         \<comment> \<open>the capture group 1\<close>
  | Ahead regex                         \<comment> \<open>\<open>(?=r)\<close>\<close>
  | EndOfInput                          \<comment> \<open>\<open>$\<close> without the \<open>m\<close> flag\<close>
  | LineStart                           \<comment> \<open>\<open>^\<close> with the \<open>m\<close> flag\<close>
  | LineEnd                             \<comment> \<open>\<open>$\<close> with the \<open>m\<close> flag\<close>

record mstate =
  m_prev :: "char option"               \<comment> \<open>the character before the position, if any\<close>
  m_rest :: string                      \<comment> \<open>the input from the position on\<close>
  m_cap :: "string option"              \<comment> \<open>what group 1 captured, if it took part\<close>

definition is_line_terminator :: "char \<Rightarrow> bool" where
  "is_line_terminator c = (of_char c \<in> {10, 13 :: nat})"

definition eq_ci :: "char \<Rightarrow> char \<Rightarrow> bool" where
  \<comment> \<open>Two characters that the \<open>i\<close> flag identifies: equal after \<open>toUpperCase\<close>.\<close>
  "eq_ci a b = (upper_char a = upper_char b)"

definition startsWithI :: "string \<Rightarrow> string \<Rightarrow> bool" where
  "startsWithI s p = (length p \<le> length s \<and> list_all2 eq_ci (take (length p) s) p)"

definition advance :: "nat \<Rightarrow> mstate \<Rightarrow> mstate" where
  \<comment> \<open>The state after \<open>n\<close> more characters of the input.\<close>
  "advance n st =
     (if n = 0 then st
      else st\<lparr>m_prev := Some (m_rest st ! (n - 1)), m_rest := drop n (m_rest st)\<rparr>)"

definition run_length :: "(char \<Rightarrow> bool) \<Rightarrow> mstate \<Rightarrow> nat" where
  \<comment> \<open>How many characters of the class stand at the position.\<close>
  "run_length P st = length (takeWhile P (m_rest st))"

definition capture_of :: "mstate \<Rightarrow> mstate \<Rightarrow> mstate" where
  \<comment> \<open>The state \<open>st'\<close> at the end of the group that was entered in \<open>st\<close>: the capture
      is the input in between.\<close>
  "capture_of st st' =
     st'\<lparr>m_cap := Some (take (length (m_rest st) - length (m_rest st')) (m_rest st))\<rparr>"

fun rmatch :: "regex \<Rightarrow> mstate \<Rightarrow> mstate list" where
  "rmatch (Lit p) st = (if startsWith (m_rest st) p then [advance (length p) st] else [])"
| "rmatch (LitI p) st = (if startsWithI (m_rest st) p then [advance (length p) st] else [])"
| "rmatch (Plus P) st = map (\<lambda>n. advance n st) (rev [1..<Suc (run_length P st)])"
| "rmatch (PlusLazy P) st = map (\<lambda>n. advance n st) [1..<Suc (run_length P st)]"
| "rmatch (Star P) st = map (\<lambda>n. advance n st) (rev [0..<Suc (run_length P st)])"
| "rmatch (Rep m n P) st = map (\<lambda>n. advance n st) (rev [m..<Suc (min n (run_length P st))])"
| "rmatch (Seq r s) st = concat (map (rmatch s) (rmatch r st))"
| "rmatch (Alt r s) st = rmatch r st @ rmatch s st"
| "rmatch (Opt r) st = rmatch r st @ [st]"
| "rmatch (Group r) st = map (capture_of st) (rmatch r st)"
| "rmatch (Ahead r) st = (if rmatch r st = [] then [] else [st])"
| "rmatch EndOfInput st = (if m_rest st = [] then [st] else [])"
| "rmatch LineStart st =
     (case m_prev st of
        None \<Rightarrow> [st]
      | Some c \<Rightarrow> if is_line_terminator c then [st] else [])"
| "rmatch LineEnd st =
     (case m_rest st of
        [] \<Rightarrow> [st]
      | c # cs \<Rightarrow> if is_line_terminator c then [st] else [])"

declare rmatch.simps [simp del]

fun seqs :: "regex list \<Rightarrow> regex" where
  "seqs [] = Lit []"
| "seqs [r] = r"
| "seqs (r # rs) = Seq r (seqs rs)"

fun alts :: "regex list \<Rightarrow> regex" where
  "alts [] = Lit []"
| "alts [r] = r"
| "alts (r # rs) = Alt r (alts rs)"

text \<open>
  A match, as the array that \<open>exec\<close> returns: the matched text \<open>match[0]\<close> and the
  capture \<open>match[1]\<close>, which is \<open>undefined\<close> when the group took no part.
\<close>

type_synonym regmatch = "string \<times> string option"

fun exec :: "regex \<Rightarrow> char option \<Rightarrow> string \<Rightarrow> (string \<times> mstate) option" where
  \<comment> \<open>The first position, from the current one on, at which the pattern matches: the
      input from that position on and the state at the end of the match.\<close>
  "exec r prev [] =
     (case rmatch r \<lparr>m_prev = prev, m_rest = [], m_cap = None\<rparr> of
        [] \<Rightarrow> None
      | st # sts \<Rightarrow> Some ([], st))"
| "exec r prev (c # cs) =
     (case rmatch r \<lparr>m_prev = prev, m_rest = c # cs, m_cap = None\<rparr> of
        [] \<Rightarrow> exec r (Some c) cs
      | st # sts \<Rightarrow> Some (c # cs, st))"

definition matched_length :: "string \<times> mstate \<Rightarrow> nat" where
  "matched_length m = length (fst m) - length (m_rest (snd m))"

definition to_match :: "string \<times> mstate \<Rightarrow> regmatch" where
  "to_match m = (take (matched_length m) (fst m), m_cap (snd m))"

function matchAllFrom :: "regex \<Rightarrow> char option \<Rightarrow> string \<Rightarrow> regmatch list" where
  \<comment> \<open>The matches of a pattern with the \<open>g\<close> flag, in order: the search goes on where
      the last match ended, one character further on after an empty match.\<close>
  "matchAllFrom r prev s =
     (case exec r prev s of
        None \<Rightarrow> []
      | Some m \<Rightarrow>
          to_match m #
            (if matched_length m = 0
             then (case fst m of [] \<Rightarrow> [] | c # cs \<Rightarrow> matchAllFrom r (Some c) cs)
             else matchAllFrom r (m_prev (snd m)) (m_rest (snd m))))"
  by pat_completeness auto
termination
proof (relation "measure (\<lambda>(r, prev, s). length s)")
  have suffix: "length (fst m) \<le> length s" if "exec r prev s = Some m" for r prev s m
    using that by (induction s arbitrary: prev) (force split: list.splits)+
  show "wf (measure (\<lambda>(r, prev, s). length s))" by simp
  show "((r, Some c, cs), r, prev, s) \<in> measure (\<lambda>(r, prev, s). length s)"
    if "exec r prev s = Some m" "fst m = c # cs" for r prev s m c cs
    using suffix [OF that(1)] that(2) by simp
  show "((r, m_prev (snd m), m_rest (snd m)), r, prev, s) \<in> measure (\<lambda>(r, prev, s). length s)"
    if "exec r prev s = Some m" "matched_length m \<noteq> 0" for r prev s m
    using suffix [OF that(1)] that(2) by (simp add: matched_length_def)
qed

declare matchAllFrom.simps [simp del]

definition matchAll :: "regex \<Rightarrow> string \<Rightarrow> regmatch list" where
  "matchAll r s = matchAllFrom r None s"

function splitFrom :: "regex \<Rightarrow> string \<Rightarrow> char option \<Rightarrow> string \<Rightarrow> string list" where
  \<comment> \<open>\<open>split\<close> by a pattern, from a position on: \<open>piece\<close> is the text since the last
      separator. A separator is a match that is not empty.\<close>
  "splitFrom r piece prev [] = [piece]"
| "splitFrom r piece prev (c # cs) =
     (case rmatch r \<lparr>m_prev = prev, m_rest = c # cs, m_cap = None\<rparr> of
        [] \<Rightarrow> splitFrom r (piece @ [c]) (Some c) cs
      | st # sts \<Rightarrow>
          if length (m_rest st) < length (c # cs)
          then piece # splitFrom r [] (m_prev st) (m_rest st)
          else splitFrom r (piece @ [c]) (Some c) cs)"
  by pat_completeness auto
termination
  by (relation "measure (\<lambda>(r, piece, prev, s). length s)") auto

declare splitFrom.simps [simp del]

definition js_split :: "regex \<Rightarrow> string \<Rightarrow> string list" where
  "js_split r s = splitFrom r [] None s"

definition splitWs :: "string \<Rightarrow> string list" where
  \<comment> \<open>\<open>s.split(/\s+/)\<close>: the pieces between the maximal runs of whitespace, the empty
      pieces at both ends included; the empty string gives one empty piece.\<close>
  "splitWs s = js_split (Plus is_space) s"

section \<open>The data model (types/index.ts)\<close>

datatype TaskType = Create | Modify | Delete | Rename | Move

datatype ChangeAction = ActAdd | ActModify | ActDelete | ActReplace | ActRefactor | ActComment

record Change =
  location :: string
  action :: ChangeAction
  change_description :: string
  code :: "string option"
  rationale :: string

record Task =
  task_id :: string
  task_type :: TaskType
  task_file :: string
  task_description :: string
  reasoning :: string
  changes :: "Change list"
  task_dependencies :: "string list option"

datatype PhaseStatus = PhasePending | PhaseInProgress | PhaseCompleted | PhaseFailed

record Phase =
  phase_id :: string
  order :: nat
  phase_name :: string
  phase_description :: string
  tasks :: "Task list"
  phase_dependencies :: "string list"
  phase_status :: PhaseStatus

datatype Complexity = Low | Medium | High

record PlanMetadata =
  estimatedComplexity :: Complexity
  filesAffected :: "string list"
  meta_dependencies :: "string list"
  estimatedTime :: "string option"
  tags :: "string list option"

datatype PlanStatus = Draft | Ready | PlanInProgress | PlanCompleted | Verified

record Plan =
  plan_id :: string
  title :: string
  plan_description :: string
  plan_timestamp :: nat
  phases :: "Phase list"
  metadata :: PlanMetadata
  plan_status :: PlanStatus

text \<open>
  Of the analysis of the project the planner reads \<open>analysis.project.dependencies\<close>
  only; the file tree, the insights and the complexity metrics are left out.
\<close>

record Project =
  project_name :: string
  rootPath :: string
  language :: string
  project_dependencies :: "string list"
  devDependencies :: "string list"

record AnalysisResult =
  project :: Project
  analysis_recommendations :: "string list"

datatype VerificationStatus = Pass | Partial | Fail | StatusError

datatype IssueSeverity = Critical | SevError | Warning | Info

datatype IssueType =
    MissingImplementation | IncorrectImplementation | Regression | ExtraChanges
  | DependencyIssue | SyntaxError | LogicError

record Issue =
  severity :: IssueSeverity
  issue_type :: IssueType
  message :: string
  issue_file :: string
  line :: "nat option"
  suggestion :: "string option"

record TaskVerification =
  taskId :: string
  tv_file :: string
  status :: VerificationStatus
  issues :: "Issue list"
  matchPercentage :: real

record VerificationSummary =
  totalTasks :: nat
  tasksCompleted :: nat
  tasksPartial :: nat
  tasksMissing :: nat
  criticalIssues :: nat
  warnings :: nat

record VerificationResult =
  planId :: string
  phaseId :: "string option"
  result_timestamp :: nat
  overallStatus :: VerificationStatus
  taskResults :: "TaskVerification list"
  summary :: VerificationSummary
  recommendations :: "string list"

record VerifyOptions =
  opt_phase :: "nat option"
  opt_task :: "string option"
  strictMode :: "bool option"

section \<open>The file system (utils/fileSystem.ts)\<close>

text \<open>
  What the verifier sees of the project: for the \<open>file\<close> of a task, the state of the
  path \<open>path.join(rootPath, file)\<close>. \<open>Unreadable\<close> is a path that \<open>fs.access\<close>
  accepts and \<open>fs.readFile\<close> rejects (a directory, a file with no read permission, a file
  removed between the two calls).
\<close>

datatype file_state = Absent | Unreadable | Content string

type_synonym project_files = "string \<Rightarrow> file_state"

datatype error =
    FileSystemError string    \<comment> \<open>thrown by \<open>readFile\<close>\<close>
  | TypeError string          \<comment> \<open>thrown by a method call on \<open>undefined\<close>\<close>

definition fs_exists :: "project_files \<Rightarrow> string \<Rightarrow> bool" where
  \<comment> \<open>\<open>exists\<close>: catches every error of \<open>fs.access\<close> and answers false.\<close>
  "fs_exists fs filePath = (fs filePath \<noteq> Absent)"

definition readFile :: "project_files \<Rightarrow> string \<Rightarrow> error + string" where
  \<comment> \<open>\<open>readFile\<close>: rethrows a failed read as a \<open>FileSystemError\<close>.\<close>
  "readFile fs filePath =
     (case fs filePath of
        Content c \<Rightarrow> Inr c
      | _ \<Rightarrow> Inl (FileSystemError (''Failed to read file: '' @ filePath)))"

section \<open>The verifier (core/verifier.ts)\<close>

text \<open>
  A JavaScript number is a double. The scores below are computed in \<^typ>\<open>real\<close>: the
  integers, the quotient of a count by itself and the sums \<open>50 + 30\<close>, \<open>80 + 20\<close> are
  exact in both, and rounding is monotone, so a sum of 50 and non-negative terms stays
  at or above 50 in both.
\<close>

definition commonWords :: "string list" where
  "commonWords =
     [''the'', ''a'', ''an'', ''and'', ''or'', ''but'', ''in'', ''on'', ''at'', ''to'', ''for'',
      ''of'', ''with'', ''by'', ''from'', ''as'', ''is'', ''was'', ''are'', ''be'', ''been'',
      ''has'', ''have'', ''had'', ''do'', ''does'', ''did'', ''will'', ''would'', ''should'',
      ''could'', ''this'', ''that'', ''these'', ''those'', ''file'', ''function'', ''class'']"

definition keyword_char :: "char \<Rightarrow> char" where
  \<comment> \<open>\<open>replace(/[^a-z0-9\s]/g, ' ')\<close> on one character.\<close>
  "keyword_char c = (if is_lower c \<or> is_digit c \<or> is_space c then c else CHR '' '')"

definition extractKeywords :: "string \<Rightarrow> string list" where
  "extractKeywords text =
     take 10
       (filter (\<lambda>word. length word > 3 \<and> word \<notin> set commonWords)
          (splitWs (map keyword_char (toLowerCase text))))"

definition changeFound :: "string \<Rightarrow> Change \<Rightarrow> bool" where
  \<comment> \<open>The body of the \<open>forEach\<close> over \<open>task.changes\<close>: a change counts when it has a
      non-empty \<open>code\<close> and one of the code's keywords occurs in the content.\<close>
  "changeFound content change =
     (case code change of
        None \<Rightarrow> False
      | Some c \<Rightarrow> c \<noteq> [] \<and> list_ex (\<lambda>kw. str_includes content kw) (extractKeywords c))"

definition calculateMatchPercentage :: "string \<Rightarrow> Task \<Rightarrow> real" where
  "calculateMatchPercentage content task =
     (let keywords = extractKeywords (task_description task);
          keywordsFound =
            filter (\<lambda>keyword. str_includes (toLowerCase content) (toLowerCase keyword)) keywords;
          score = 50 + (real (length keywordsFound) / real (max (length keywords) 1)) * 30;
          score' =
            (if changes task \<noteq> []
             then score + (real (length (filter (changeFound content) (changes task)))
                            / real (length (changes task))) * 20
             else score)
      in min 100 (max 0 score'))"

definition mathRound :: "real \<Rightarrow> nat" where
  \<comment> \<open>\<open>Math.round\<close> of a non-negative number: halves go up.\<close>
  "mathRound x = nat \<lfloor>x + 1 / 2\<rfloor>"

definition detectUnplannedChanges :: "string \<Rightarrow> Task \<Rightarrow> string list" where
  \<comment> \<open>"For now, just return an empty array".\<close>
  "detectUnplannedChanges filePath task = []"

definition createOutcome :: "Task \<Rightarrow> real \<Rightarrow> VerificationStatus \<times> Issue list" where
  \<comment> \<open>Lines 133-153: a \<open>create\<close> task whose file was read, by its match percentage.\<close>
  "createOutcome task mp =
     (if mp \<ge> 80 then (Pass, [])
      else if mp \<ge> 50 then
        (Partial,
         [\<lparr>severity = Warning, issue_type = IncorrectImplementation,
           message = ''File created but implementation may be incomplete (''
                       @ natToString (mathRound mp) @ ''% match)'',
           issue_file = task_file task, line = None,
           suggestion = Some ''Review the plan and ensure all requirements are met''\<rparr>])
      else
        (Fail,
         [\<lparr>severity = SevError, issue_type = IncorrectImplementation,
           message = ''File created but implementation is significantly different from plan'',
           issue_file = task_file task, line = None,
           suggestion = Some ''Review and align implementation with the plan''\<rparr>]))"

definition modifyOutcome :: "Task \<Rightarrow> real \<Rightarrow> VerificationStatus \<times> Issue list" where
  \<comment> \<open>Lines 173-193: a \<open>modify\<close> task whose file was read, by its match percentage.\<close>
  "modifyOutcome task mp =
     (if mp \<ge> 70 then (Pass, [])
      else if mp \<ge> 40 then
        (Partial,
         [\<lparr>severity = Warning, issue_type = IncorrectImplementation,
           message = ''Modifications may be incomplete (''
                       @ natToString (mathRound mp) @ ''% confidence)'',
           issue_file = task_file task, line = None,
           suggestion = Some ''Verify that all planned changes have been made''\<rparr>])
      else
        (Fail,
         [\<lparr>severity = SevError, issue_type = MissingImplementation,
           message = ''Required modifications not detected'',
           issue_file = task_file task, line = None,
           suggestion = Some ''Review the plan and implement the required changes''\<rparr>]))"

definition checkTask ::
  "project_files \<Rightarrow> Task \<Rightarrow> error + (VerificationStatus \<times> real \<times> Issue list)" where
  \<comment> \<open>Lines 109-210 of \<open>verifyTask\<close>: the status, the match percentage and the issues,
      or the error that \<open>readFile\<close> throws. \<open>status\<close> starts as \<open>fail\<close> and
      \<open>matchPercentage\<close> as 0, which is what a \<open>rename\<close> or \<open>move\<close> task keeps.\<close>
  "checkTask fs task =
     (let fileExists = fs_exists fs (task_file task)
      in case task_type task of
           Create \<Rightarrow>
             if \<not> fileExists then
               Inr (Fail, 0,
                    [\<lparr>severity = SevError, issue_type = MissingImplementation,
                      message = ''File not created: '' @ task_file task,
                      issue_file = task_file task, line = None,
                      suggestion = Some ''Create the file as specified in the plan''\<rparr>])
             else
               (case readFile fs (task_file task) of
                  Inl e \<Rightarrow> Inl e
                | Inr content \<Rightarrow>
                    let mp = calculateMatchPercentage content task
                    in Inr (fst (createOutcome task mp), mp, snd (createOutcome task mp)))
         | Modify \<Rightarrow>
             if \<not> fileExists then
               Inr (Fail, 0,
                    [\<lparr>severity = SevError, issue_type = MissingImplementation,
                      message = ''File does not exist: '' @ task_file task,
                      issue_file = task_file task, line = None,
                      suggestion = Some
                        (if task_file task = ''unknown''
                         then ''This task may need clarification about which file to modify''
                         else ''Check if the file path is correct or if the file needs to be created'')\<rparr>])
             else
               (case readFile fs (task_file task) of
                  Inl e \<Rightarrow> Inl e
                | Inr content \<Rightarrow>
                    let mp = calculateMatchPercentage content task
                    in Inr (fst (modifyOutcome task mp), mp, snd (modifyOutcome task mp)))
         | Delete \<Rightarrow>
             if fileExists then
               Inr (Fail, 0,
                    [\<lparr>severity = SevError, issue_type = ExtraChanges,
                      message = ''File should have been deleted: '' @ task_file task,
                      issue_file = task_file task, line = None,
                      suggestion = Some ''Remove this file as specified in the plan''\<rparr>])
             else Inr (Pass, 100, [])
         | Rename \<Rightarrow> Inr (Fail, 0, [])
         | Move \<Rightarrow> Inr (Fail, 0, []))"

definition verifyTask :: "project_files \<Rightarrow> Task \<Rightarrow> bool \<Rightarrow> error + TaskVerification" where
  "verifyTask fs task strict =
     (case checkTask fs task of
        Inl e \<Rightarrow> Inl e
      | Inr (st, mp, iss) \<Rightarrow>
          Inr \<lparr>taskId = task_id task, tv_file = task_file task, status = st,
               issues =
                 (if strict \<and> fs_exists fs (task_file task)
                  then iss @ map (\<lambda>change.
                                    \<lparr>severity = Warning, issue_type = ExtraChanges,
                                     message = change, issue_file = task_file task,
                                     line = None, suggestion = None\<rparr>)
                                 (detectUnplannedChanges (task_file task) task)
                  else iss),
               matchPercentage = mp\<rparr>)"

definition getTasksToVerify :: "Plan \<Rightarrow> VerifyOptions \<Rightarrow> Task list" where
  \<comment> \<open>\<open>if (options.phase)\<close> and \<open>if (options.task)\<close> test truthiness: the phase 0 and
      the empty task id select nothing.\<close>
  "getTasksToVerify plan options =
     (let tasks0 =
            (case opt_phase options of
               None \<Rightarrow> concat (map tasks (phases plan))
             | Some n \<Rightarrow>
                 if n = 0 then concat (map tasks (phases plan))
                 else (case find (\<lambda>p. order p = n) (phases plan) of
                         None \<Rightarrow> []
                       | Some phase \<Rightarrow> tasks phase))
      in case opt_task options of
           None \<Rightarrow> tasks0
         | Some t \<Rightarrow> if t = [] then tasks0 else filter (\<lambda>x. task_id x = t) tasks0)"

fun verifyLoop ::
  "project_files \<Rightarrow> bool \<Rightarrow> Task list \<Rightarrow> TaskVerification list \<Rightarrow> Issue list
     \<Rightarrow> error + (TaskVerification list \<times> Issue list)" where
  \<comment> \<open>The \<open>for\<close> loop of \<open>verify\<close> over \<open>tasksToVerify\<close>, with its two accumulators;
      an error thrown by \<open>verifyTask\<close> leaves the loop and \<open>verify\<close>.\<close>
  "verifyLoop fs strict [] results allIssues = Inr (results, allIssues)"
| "verifyLoop fs strict (task # rest) results allIssues =
     (case verifyTask fs task strict of
        Inl e \<Rightarrow> Inl e
      | Inr taskResult \<Rightarrow>
          verifyLoop fs strict rest (results @ [taskResult]) (allIssues @ issues taskResult))"

definition plural :: "nat \<Rightarrow> string" where
  "plural n = (if n > 1 then ''s'' else [])"

definition generateRecommendations ::
  "TaskVerification list \<Rightarrow> VerificationSummary \<Rightarrow> string list" where
  "generateRecommendations results summ =
     (let r1 = (if tasksMissing summ > 0
                then [''Complete the '' @ natToString (tasksMissing summ) @ '' missing task''
                        @ plural (tasksMissing summ)]
                else []);
          r2 = (if tasksPartial summ > 0
                then [''Review and improve the '' @ natToString (tasksPartial summ)
                        @ '' partially implemented task'' @ plural (tasksPartial summ)]
                else []);
          r3 = (if criticalIssues summ > 0
                then [''Address critical issues before proceeding''] else []);
          failedTasks = filter (\<lambda>t. status t = Fail) results;
          r4 = (if length failedTasks > 0 \<and> length failedTasks \<le> 3
                then map (\<lambda>t. ''Review implementation of '' @ tv_file t) failedTasks
                else []);
          recs = r1 @ r2 @ r3 @ r4
      in if recs = []
         then [''Implementation looks good! Consider code review before merging'']
         else recs)"

definition summarize :: "TaskVerification list \<Rightarrow> Issue list \<Rightarrow> VerificationSummary" where
  \<comment> \<open>Lines 41-48.\<close>
  "summarize results allIssues =
     \<lparr>totalTasks = length results,
      tasksCompleted = length (filter (\<lambda>t. status t = Pass) results),
      tasksPartial = length (filter (\<lambda>t. status t = Partial) results),
      tasksMissing = length (filter (\<lambda>t. status t = Fail) results),
      criticalIssues =
        length (filter (\<lambda>i. severity i = Critical \<or> severity i = SevError) allIssues),
      warnings = length (filter (\<lambda>i. severity i = Warning) allIssues)\<rparr>"

definition determineOverallStatus :: "VerificationSummary \<Rightarrow> VerificationStatus" where
  \<comment> \<open>Lines 51-56.\<close>
  "determineOverallStatus summ =
     (if criticalIssues summ > 0 \<or> real (tasksMissing summ) > real (totalTasks summ) / 2
      then Fail
      else if tasksPartial summ > 0 \<or> tasksMissing summ > 0 then Partial
      else Pass)"

definition verify ::
  "nat \<Rightarrow> project_files \<Rightarrow> Plan \<Rightarrow> VerifyOptions \<Rightarrow> error + VerificationResult" where
  \<comment> \<open>\<open>now\<close> is the clock reading of \<open>new Date()\<close>; \<open>fs\<close> is the project under
      \<open>rootPath\<close>.\<close>
  "verify now fs plan options =
     (let tasksToVerify = getTasksToVerify plan options;
          strict = (case strictMode options of None \<Rightarrow> False | Some b \<Rightarrow> b)
      in case verifyLoop fs strict tasksToVerify [] [] of
           Inl e \<Rightarrow> Inl e
         | Inr (results, allIssues) \<Rightarrow>
             let summ = summarize results allIssues
             in Inr \<lparr>planId = plan_id plan,
                     phaseId =
                       (case opt_phase options of
                          None \<Rightarrow> None
                        | Some n \<Rightarrow> if n = 0 then None else Some (''phase-'' @ natToString n)),
                     result_timestamp = now,
                     overallStatus = determineOverallStatus summ,
                     taskResults = results,
                     summary = summ,
                     recommendations = generateRecommendations results summ\<rparr>)"

section \<open>The planner (core/planner.ts)\<close>

subsection \<open>The patterns\<close>

definition any_char :: "char \<Rightarrow> bool" where
  \<comment> \<open>\<open>.\<close> with the \<open>s\<close> flag.\<close>
  "any_char c = True"

definition not_line_terminator :: "char \<Rightarrow> bool" where
  \<comment> \<open>\<open>.\<close> without the \<open>s\<close> flag.\<close>
  "not_line_terminator c = (\<not> is_line_terminator c)"

definition colon_or_space :: "char \<Rightarrow> bool" where
  \<comment> \<open>\<open>[:\s]\<close>\<close>
  "colon_or_space c = (c = CHR '':'' \<or> is_space c)"

definition not_backtick :: "char \<Rightarrow> bool" where
  \<comment> \<open>\<open>[^`]\<close>\<close>
  "not_backtick c = (c \<noteq> CHR 0x60)"

definition is_letter :: "char \<Rightarrow> bool" where
  \<comment> \<open>\<open>[a-z]\<close> under the \<open>i\<close> flag.\<close>
  "is_letter c = (is_lower c \<or> is_upper c)"

definition path_char :: "char \<Rightarrow> bool" where
  \<comment> \<open>\<open>[a-zA-Z0-9_\-\/]\<close>\<close>
  "path_char c =
     (is_lower c \<or> is_upper c \<or> is_digit c \<or> c = CHR ''_'' \<or> c = CHR ''-'' \<or> c = CHR ''/'')"

definition path_char_dot :: "char \<Rightarrow> bool" where
  \<comment> \<open>\<open>[a-zA-Z0-9_\-\/\.]\<close>\<close>
  "path_char_dot c = (path_char c \<or> c = CHR ''.'')"

definition titlePattern :: regex where
  \<comment> \<open>\<open>/^#\s+(.+)$/m\<close>\<close>
  "titlePattern =
     seqs [LineStart, Lit ''#'', Plus is_space, Group (Plus not_line_terminator), LineEnd]"

definition phasePattern :: regex where
  \<comment> \<open>\<open>/##\s+(?:Phase\s+\d+[:\s]+)?(.+?)(?=##\s+|$)/gs\<close>\<close>
  "phasePattern =
     seqs [Lit ''##'', Plus is_space,
           Opt (seqs [Lit ''Phase'', Plus is_space, Plus is_digit, Plus colon_or_space]),
           Group (PlusLazy any_char),
           Ahead (Alt (Seq (Lit ''##'') (Plus is_space)) EndOfInput)]"

text \<open>The parts of \<open>phasePattern\<close>, by name.\<close>

definition phasePrefix :: regex where
  \<comment> \<open>\<open>Phase\s+\d+[:\s]+\<close>\<close>
  "phasePrefix = seqs [Lit ''Phase'', Plus is_space, Plus is_digit, Plus colon_or_space]"

definition phaseAhead :: regex where
  \<comment> \<open>\<open>(?=##\s+|$)\<close>\<close>
  "phaseAhead = Ahead (Alt (Seq (Lit ''##'') (Plus is_space)) EndOfInput)"

definition phaseBody :: regex where
  \<comment> \<open>\<open>(.+?)(?=##\s+|$)\<close>\<close>
  "phaseBody = Seq (Group (PlusLazy any_char)) phaseAhead"

definition filePatterns :: "regex list" where
  \<comment> \<open>\<open>/(?:Create|Add|Modify|Update|Edit)\s+`([^`]+\.[a-z]+)`/gi\<close>,
      \<open>/(?:File|Path):\s*`([^`]+\.[a-z]+)`/gi\<close> and
      \<open>/`([a-zA-Z0-9_\-\/]+\.[a-z]{2,4})`/g\<close>\<close>
  "filePatterns =
     [seqs [alts [LitI ''Create'', LitI ''Add'', LitI ''Modify'', LitI ''Update'', LitI ''Edit''],
            Plus is_space, Lit [CHR 0x60],
            Group (seqs [Plus not_backtick, Lit ''.'', Plus is_letter]), Lit [CHR 0x60]],
      seqs [alts [LitI ''File'', LitI ''Path''], Lit '':'', Star is_space, Lit [CHR 0x60],
            Group (seqs [Plus not_backtick, Lit ''.'', Plus is_letter]), Lit [CHR 0x60]],
      seqs [Lit [CHR 0x60],
            Group (seqs [Plus path_char, Lit ''.'', Rep 2 4 is_lower]), Lit [CHR 0x60]]]"

definition filePattern :: regex where
  \<comment> \<open>\<open>/`([a-zA-Z0-9_\-\/\.]+\.[a-z]{2,4})`/g\<close> of \<open>extractFilesMentioned\<close>\<close>
  "filePattern =
     seqs [Lit [CHR 0x60],
           Group (seqs [Plus path_char_dot, Lit ''.'', Rep 2 4 is_lower]), Lit [CHR 0x60]]"

definition sentenceEnd :: regex where
  \<comment> \<open>\<open>/[.!?]\s+/\<close>\<close>
  "sentenceEnd = Seq (alts [Lit ''.'', Lit ''!'', Lit ''?'']) (Plus is_space)"

subsection \<open>Tasks\<close>

definition determineTaskType :: "string \<Rightarrow> string \<Rightarrow> TaskType" where
  "determineTaskType content file =
     (let lowerContent = toLowerCase content;
          lowerFile = toLowerCase file
      in if str_includes lowerContent (''create '' @ lowerFile)
            \<or> str_includes lowerContent (''new '' @ lowerFile)
            \<or> str_includes lowerContent (''add '' @ lowerFile)
         then Create
         else if str_includes lowerContent (''delete '' @ lowerFile)
            \<or> str_includes lowerContent (''remove '' @ lowerFile)
         then Delete
         else Modify)"

definition extractReasoning :: "string \<Rightarrow> string \<Rightarrow> string" where
  "extractReasoning content file =
     (let sentences = js_split sentenceEnd content
      in case find (\<lambda>s. str_includes s file) sentences of
           Some relevantSentence \<Rightarrow> take 200 (trim relevantSentence)
         | None \<Rightarrow> ''Implement as described in the plan'')"

definition addMatches :: "regmatch list \<Rightarrow> string list \<Rightarrow> string list" where
  \<comment> \<open>The inner \<open>forEach\<close> of \<open>extractTasks\<close>: a capture that is a non-empty string and
      not yet in the set is added. The list is the \<open>Set\<close> in insertion order.\<close>
  "addMatches ms filesFound =
     fold (\<lambda>m found.
             case snd m of
               None \<Rightarrow> found
             | Some f \<Rightarrow> if f \<noteq> [] \<and> f \<notin> set found then found @ [f] else found)
          ms filesFound"

definition findFiles :: "string \<Rightarrow> string list" where
  \<comment> \<open>The outer \<open>forEach\<close> over \<open>filePatterns\<close>.\<close>
  "findFiles content =
     fold (\<lambda>pattern found. addMatches (matchAll pattern content) found) filePatterns []"

definition taskTypeName :: "TaskType \<Rightarrow> string" where
  "taskTypeName t =
     (case t of Create \<Rightarrow> ''create'' | Modify \<Rightarrow> ''modify'' | Delete \<Rightarrow> ''delete''
      | Rename \<Rightarrow> ''rename'' | Move \<Rightarrow> ''move'')"

definition capitalize :: "string \<Rightarrow> string" where
  \<comment> \<open>\<open>s.charAt(0).toUpperCase() + s.slice(1)\<close>\<close>
  "capitalize s = map upper_char (take 1 s) @ drop 1 s"

definition fileTask :: "string \<Rightarrow> string \<Rightarrow> Task" where
  \<comment> \<open>The callback of \<open>filesFound.forEach((file, idx) => ...)\<close>. \<open>filesFound\<close> is a
      \<open>Set\<close>, and \<open>Set.prototype.forEach\<close> calls back with \<open>(value, key, set)\<close> where
      the key of a set element is the element: \<open>idx\<close> is the file again, a string, and
      \<open>idx + 1\<close> is that string followed by \<open>1\<close>.\<close>
  "fileTask content file =
     (let idx = file;
          taskType = determineTaskType content file
      in \<lparr>task_id = ''task-'' @ (idx @ ''1''),
          task_type = taskType,
          task_file = file,
          task_description = capitalize (taskTypeName taskType) @ '' '' @ file,
          reasoning = extractReasoning content file,
          changes = [],
          task_dependencies = None\<rparr>)"

definition genericTask :: Task where
  "genericTask =
     \<lparr>task_id = ''task-1'', task_type = Modify, task_file = ''implementation'',
      task_description = ''Implement the planned changes'',
      reasoning = ''As described in the plan'', changes = [], task_dependencies = None\<rparr>"

definition extractTasks :: "string \<Rightarrow> Task list" where
  "extractTasks content =
     (let found = map (fileTask content) (findFiles content)
      in if length found = 0 then found @ [genericTask] else found)"

subsection \<open>Phases\<close>

definition implementationPhase :: "string \<Rightarrow> Phase" where
  \<comment> \<open>The single phase of a document with no match of \<open>phasePattern\<close>.\<close>
  "implementationPhase markdown =
     \<lparr>phase_id = ''phase-1'', order = 1, phase_name = ''Implementation'',
      phase_description = ''Complete implementation'', tasks = extractTasks markdown,
      phase_dependencies = [], phase_status = PhasePending\<rparr>"

definition matchPhase :: "nat \<Rightarrow> regmatch \<Rightarrow> error + Phase" where
  \<comment> \<open>The callback of \<open>matches.forEach((match, idx) => ...)\<close>. \<open>match[1].trim()\<close>
      throws a \<open>TypeError\<close> on a capture that is \<open>undefined\<close>.\<close>
  "matchPhase idx match =
     (case snd match of
        None \<Rightarrow> Inl (TypeError ''Cannot read properties of undefined (reading trim)'')
      | Some m1 \<Rightarrow>
          let phaseName = trim m1;
              phaseContent = fst match
          in Inr \<lparr>phase_id = ''phase-'' @ natToString (idx + 1),
                  order = idx + 1,
                  phase_name = phaseName,
                  phase_description = take 200 phaseContent,
                  tasks = extractTasks phaseContent,
                  phase_dependencies = (if idx > 0 then [''phase-'' @ natToString idx] else []),
                  phase_status = PhasePending\<rparr>)"

fun matchPhases :: "nat \<Rightarrow> regmatch list \<Rightarrow> Phase list \<Rightarrow> error + Phase list" where
  \<comment> \<open>\<open>matches.forEach\<close> from the index \<open>idx\<close> on; \<open>pushed\<close> is the array
      \<open>phases\<close> so far.\<close>
  "matchPhases idx [] pushed = Inr pushed"
| "matchPhases idx (match # rest) pushed =
     (case matchPhase idx match of
        Inl e \<Rightarrow> Inl e
      | Inr phase \<Rightarrow> matchPhases (idx + 1) rest (pushed @ [phase]))"

definition extractPhases :: "string \<Rightarrow> error + Phase list" where
  "extractPhases markdown =
     (let matches = matchAll phasePattern markdown
      in if length matches = 0 then Inr [implementationPhase markdown]
         else (case matchPhases 0 matches [] of
                 Inl e \<Rightarrow> Inl e
               | Inr pushed \<Rightarrow>
                   Inr (if length pushed > 0 then pushed else [implementationPhase markdown])))"

definition capture_name :: "regmatch \<Rightarrow> string" where
  \<comment> \<open>The name that \<open>matchPhase\<close> gives the phase of a match.\<close>
  "capture_name m = (case snd m of None \<Rightarrow> [] | Some c \<Rightarrow> trim c)"

subsection \<open>The plan\<close>

definition extractFilesMentioned :: "string \<Rightarrow> string list" where
  \<comment> \<open>The \<open>Set\<close> \<open>files\<close>, in insertion order.\<close>
  "extractFilesMentioned markdown =
     fold (\<lambda>m files.
             case snd m of
               None \<Rightarrow> files
             | Some f \<Rightarrow>
                 if f \<noteq> [] \<and> \<not> str_includes f '' '' \<and> f \<notin> set files then files @ [f]
                 else files)
          (matchAll filePattern markdown) []"

definition estimateComplexity :: "string \<Rightarrow> nat \<Rightarrow> nat \<Rightarrow> Complexity" where
  "estimateComplexity markdown phaseCount fileCount =
     (let wordCount = length (splitWs markdown)
      in if fileCount > 10 \<or> phaseCount > 5 \<or> wordCount > 2000 then High
         else if fileCount > 5 \<or> phaseCount > 2 \<or> wordCount > 1000 then Medium
         else Low)"

definition baseHours :: "Complexity \<Rightarrow> nat" where
  "baseHours c = (case c of Low \<Rightarrow> 2 | Medium \<Rightarrow> 6 | High \<Rightarrow> 16)"

definition ceilDiv :: "nat \<Rightarrow> nat \<Rightarrow> nat" where
  \<comment> \<open>\<open>Math.ceil(a / b)\<close> for whole \<open>a\<close> and \<open>b > 0\<close>.\<close>
  "ceilDiv a b = (a + b - 1) div b"

definition estimateTime :: "Complexity \<Rightarrow> nat \<Rightarrow> string" where
  "estimateTime complexity phaseCount =
     (let hours = baseHours complexity * phaseCount
      in if hours < 8 then natToString hours @ '' hours''
         else if hours < 40 then natToString (ceilDiv hours 8) @ '' days''
         else natToString (ceilDiv hours 40) @ '' weeks'')"

definition extractTitle :: "string \<Rightarrow> string \<Rightarrow> string" where
  \<comment> \<open>\<open>titleMatch ? titleMatch[1] : description.slice(0, 100)\<close>. The group of
      \<open>titlePattern\<close> takes part in each of its matches, so the capture is a string.\<close>
  "extractTitle markdown description =
     (case exec titlePattern None markdown of
        None \<Rightarrow> take 100 description
      | Some m \<Rightarrow> (case m_cap (snd m) of Some t \<Rightarrow> t | None \<Rightarrow> []))"

definition parsePlanFromMarkdown ::
  "nat \<Rightarrow> nat \<Rightarrow> string \<Rightarrow> string \<Rightarrow> AnalysisResult \<Rightarrow> error + Plan" where
  \<comment> \<open>\<open>now\<close> is the value of \<open>Date.now()\<close>, \<open>now'\<close> the later reading of
      \<open>new Date()\<close>.\<close>
  "parsePlanFromMarkdown now now' markdown description analysis =
     (let newId = ''plan-'' @ natToString now;
          newTitle = extractTitle markdown description
      in case extractPhases markdown of
           Inl e \<Rightarrow> Inl e
         | Inr extracted \<Rightarrow>
             let files = extractFilesMentioned markdown;
                 complexity = estimateComplexity markdown (length extracted) (length files)
             in Inr \<lparr>plan_id = newId,
                     title = newTitle,
                     plan_description = description,
                     plan_timestamp = now',
                     phases = extracted,
                     metadata =
                       \<lparr>estimatedComplexity = complexity,
                        filesAffected = files,
                        meta_dependencies = take 10 (project_dependencies (project analysis)),
                        estimatedTime = Some (estimateTime complexity (length extracted)),
                        tags = None\<rparr>,
                     plan_status = Ready\<rparr>)"

subsection \<open>The headings of a document, as the specification counts them\<close>

text \<open>
  The specification speaks of the second-level headings of the markdown: the lines that
  begin with exactly two \<open>#\<close>, followed by whitespace or by the end of the line. This is
  the reading of the specification, to compare the program with; the program itself
  searches for \<open>phasePattern\<close>.
\<close>

fun splitLines :: "string \<Rightarrow> string list" where
  "splitLines [] = [[]]"
| "splitLines (c # cs) =
     (if c = CHR 0x0A then [] # splitLines cs
      else (case splitLines cs of l # ls \<Rightarrow> (c # l) # ls | [] \<Rightarrow> [[c]]))"

definition is_h2_line :: "string \<Rightarrow> bool" where
  "is_h2_line l =
     (startsWith l ''##'' \<and> (case drop 2 l of [] \<Rightarrow> True | c # cs \<Rightarrow> is_space c))"

definition spec_h2_headings :: "string \<Rightarrow> string list" where
  "spec_h2_headings markdown = filter is_h2_line (splitLines markdown)"

fun hasHeadingMark :: "string \<Rightarrow> bool" where
  \<comment> \<open>\<open>##\<close> followed by a whitespace character occurs in the text.\<close>
  "hasHeadingMark (a # b # c # cs) =
     ((a = CHR ''#'' \<and> b = CHR ''#'' \<and> is_space c) \<or> hasHeadingMark (b # c # cs))"
| "hasHeadingMark cs = False"

subsection \<open>Documents made of sections\<close>

text \<open>
  A document whose second-level headings are what the program looks for: some text (a
  title, an introduction) in which \<open>##\<close> is nowhere followed by whitespace, then one
  section per heading. A section is \<open>##\<close>, the whitespace after it, and a text: the rest of
  the heading line and the body. The text is not empty, does not begin with whitespace,
  has no \<open>##\<close> followed by whitespace in it, and is more than a phase number
  (\<open>Phase\<close>, whitespace, digits, colons and whitespace).
\<close>

type_synonym doc_section = "string \<times> string"

definition render_section :: "doc_section \<Rightarrow> string" where
  "render_section sec = ''##'' @ fst sec @ snd sec"

definition only_number :: "string \<Rightarrow> bool" where
  \<comment> \<open>The text is \<open>Phase\<close>, whitespace, digits, and colons and whitespace, with nothing
      after them.\<close>
  "only_number t =
     (startsWith t ''Phase''
      \<and> (let a = drop 5 t;
              b = dropWhile is_space a;
              c = dropWhile is_digit b
          in length b < length a \<and> length c < length b \<and> c \<noteq> [] \<and> list_all colon_or_space c))"

definition section_ok :: "doc_section \<Rightarrow> bool" where
  "section_ok sec =
     (fst sec \<noteq> [] \<and> list_all is_space (fst sec)
      \<and> snd sec \<noteq> [] \<and> \<not> is_space (hd (snd sec))
      \<and> \<not> hasHeadingMark (snd sec) \<and> \<not> only_number (snd sec))"

definition no_heading_line :: "string \<Rightarrow> bool" where
  \<comment> \<open>No line of the text is a second-level heading.\<close>
  "no_heading_line t = list_all (\<lambda>l. \<not> is_h2_line l) (splitLines t)"

definition on_own_lines :: "string \<Rightarrow> doc_section list \<Rightarrow> bool" where
  \<comment> \<open>Every section begins a line (the text before the sections, and every section but
      the last, ends with a line feed), and the headings of the sections are the only
      second-level headings.\<close>
  "on_own_lines pre secs =
     ((pre = [] \<or> last pre = CHR 0x0A) \<and> no_heading_line pre
      \<and> list_all (\<lambda>sec. last (snd sec) = CHR 0x0A) (butlast secs)
      \<and> list_all (\<lambda>sec. no_heading_line (snd sec)) secs)"

fun starts_mark :: "string \<Rightarrow> bool" where
  \<comment> \<open>The text begins with \<open>##\<close> and a whitespace character.\<close>
  "starts_mark (a # b # c # cs) = (a = CHR ''#'' \<and> b = CHR ''#'' \<and> is_space c)"
| "starts_mark cs = False"

section \<open>Documents to run the planner on\<close>

definition demo_analysis :: AnalysisResult where
  "demo_analysis =
     \<lparr>project = \<lparr>project_name = ''demo'', rootPath = ''/demo'', language = ''typescript'',
                  project_dependencies = [''chalk'', ''ora''], devDependencies = []\<rparr>,
      analysis_recommendations = []\<rparr>"

definition plain_markdown :: string where
  "plain_markdown = ''Fix it''"

definition notes_markdown :: string where
  "notes_markdown = ''### Notes''"

definition nested_markdown :: string where
  "nested_markdown = ''## A\<newline>### B''"

definition varied_preamble :: string where
  "varied_preamble = ''# T\<newline>''"

definition varied_sections :: "doc_section list" where
  "varied_sections =
     [([CHR 0x09], ''A\<newline>use C# here\<newline>''), (''  '', ''Phase 2 Build\<newline>x'')]"

definition varied_markdown :: string where
  "varied_markdown =
     ''# T\<newline>##'' @ CHR 0x09 # ''A\<newline>use C# here\<newline>##  Phase 2 Build\<newline>x''"

definition phased_markdown :: string where
  "phased_markdown =
     ''# T\<newline>## Phase 1: Setup\<newline>Run\<newline>## Test''"

definition two_files_text :: string where
  "two_files_text = ''`a.ts` `b.ts`''"

section \<open>A project to run the verifier on\<close>

definition demo_task :: "string \<Rightarrow> TaskType \<Rightarrow> string \<Rightarrow> string \<Rightarrow> Task" where
  "demo_task i ty f d =
     \<lparr>task_id = i, task_type = ty, task_file = f, task_description = d,
      reasoning = ''Implement as described in the plan'', changes = [],
      task_dependencies = None\<rparr>"

definition demo_plan :: Plan where
  "demo_plan =
     \<lparr>plan_id = ''plan-1'', title = ''Demo'', plan_description = ''Demo'', plan_timestamp = 1,
      phases =
        [\<lparr>phase_id = ''phase-1'', order = 1, phase_name = ''Implementation'',
          phase_description = ''Complete implementation'',
          tasks = [demo_task ''task-1'' Create ''src/config.ts'' ''Add parseConfig helper function'',
                   demo_task ''task-2'' Modify ''src/app.ts'' ''Modify src/app.ts'',
                   demo_task ''task-3'' Delete ''old.ts'' ''Delete old.ts'',
                   demo_task ''task-4'' Create ''new.ts'' ''Create new.ts''],
          phase_dependencies = [], phase_status = PhasePending\<rparr>],
      metadata = \<lparr>estimatedComplexity = Low, filesAffected = [], meta_dependencies = [],
                  estimatedTime = None, tags = None\<rparr>,
      plan_status = Ready\<rparr>"

definition demo_fs :: project_files where
  "demo_fs f =
     (if f = ''src/config.ts'' then Content ''export function parseConfig() { return helper; }''
      else if f = ''src/app.ts'' then Content ''console.log(1)''
      else if f = ''old.ts'' then Content []
      else if f = ''locked.ts'' then Unreadable
      else Absent)"

definition demo_options :: VerifyOptions where
  "demo_options = \<lparr>opt_phase = None, opt_task = None, strictMode = None\<rparr>"

definition locked_task :: Task where
  "locked_task = demo_task ''task-1'' Modify ''locked.ts'' ''Update the locked module''"

definition locked_plan :: Plan where
  "locked_plan =
     demo_plan\<lparr>phases :=
       [\<lparr>phase_id = ''phase-1'', order = 1, phase_name = ''Implementation'',
         phase_description = ''Complete implementation'',
         tasks = [locked_task, demo_task ''task-2'' Delete ''gone.ts'' ''Delete gone.ts''],
         phase_dependencies = [], phase_status = PhasePending\<rparr>]\<rparr>"

section \<open>Properties of the verifier\<close>

subsection \<open>The loop and the result of a run\<close>

lemma verifyLoop_acc:
  "verifyLoop fs strict ts rs iss = Inr (rs', iss') \<Longrightarrow>
     \<exists>new. rs' = rs @ new \<and> iss' = iss @ concat (map issues new)
          \<and> map (\<lambda>t. verifyTask fs t strict) ts = map Inr new"
proof (induction ts arbitrary: rs iss)
  case Nil
  then show ?case by simp
next
  case (Cons t ts)
  show ?case
  proof (cases "verifyTask fs t strict")
    case (Inl e)
    with Cons.prems show ?thesis by simp
  next
    case (Inr r)
    with Cons.prems have "verifyLoop fs strict ts (rs @ [r]) (iss @ issues r) = Inr (rs', iss')"
      by simp
    from Cons.IH [OF this] obtain new where
      "rs' = (rs @ [r]) @ new" "iss' = (iss @ issues r) @ concat (map issues new)"
      "map (\<lambda>t. verifyTask fs t strict) ts = map Inr new" by blast
    with Inr have "rs' = rs @ (r # new) \<and> iss' = iss @ concat (map issues (r # new))
          \<and> map (\<lambda>t. verifyTask fs t strict) (t # ts) = map Inr (r # new)" by simp
    then show ?thesis by blast
  qed
qed

lemma verify_Inr:
  assumes "verify now fs plan options = Inr r"
  shows "map (\<lambda>t. verifyTask fs t (case strictMode options of None \<Rightarrow> False | Some b \<Rightarrow> b))
           (getTasksToVerify plan options) = map Inr (taskResults r)"
    and "summary r = summarize (taskResults r) (concat (map issues (taskResults r)))"
    and "overallStatus r = determineOverallStatus (summary r)"
proof -
  let ?strict = "case strictMode options of None \<Rightarrow> False | Some b \<Rightarrow> b"
  from assms obtain rs iss where
    loop: "verifyLoop fs ?strict (getTasksToVerify plan options) [] [] = Inr (rs, iss)"
    by (auto simp: verify_def Let_def split: sum.splits)
  from verifyLoop_acc [OF loop] have
    iss: "iss = concat (map issues rs)" and
    m: "map (\<lambda>t. verifyTask fs t ?strict) (getTasksToVerify plan options) = map Inr rs"
    by auto
  from assms loop have r: "taskResults r = rs" "summary r = summarize rs iss"
    "overallStatus r = determineOverallStatus (summarize rs iss)"
    by (auto simp: verify_def Let_def)
  show "map (\<lambda>t. verifyTask fs t ?strict) (getTasksToVerify plan options) = map Inr (taskResults r)"
    using m r by simp
  show "summary r = summarize (taskResults r) (concat (map issues (taskResults r)))"
    using r iss by simp
  show "overallStatus r = determineOverallStatus (summary r)"
    using r by simp
qed

lemma calculateMatchPercentage_bounds:
  "50 \<le> calculateMatchPercentage content task \<and> calculateMatchPercentage content task \<le> 100"
proof -
  let ?kw = "extractKeywords (task_description task)"
  let ?found = "filter (\<lambda>keyword. str_includes (toLowerCase content) (toLowerCase keyword)) ?kw"
  let ?a = "(real (length ?found) / real (max (length ?kw) 1)) * 30"
  let ?b = "(real (length (filter (changeFound content) (changes task)))
               / real (length (changes task))) * 20"
  have a: "0 \<le> ?a" by simp
  have b: "0 \<le> ?b" by simp
  show ?thesis
    unfolding calculateMatchPercentage_def Let_def
    using a b by (auto simp: min_def max_def)
qed

lemma createOutcome_status:
  "50 \<le> mp \<Longrightarrow> fst (createOutcome task mp) = Pass \<or> fst (createOutcome task mp) = Partial"
  by (simp add: createOutcome_def)

lemma modifyOutcome_status:
  "50 \<le> mp \<Longrightarrow> fst (modifyOutcome task mp) = Pass \<or> fst (modifyOutcome task mp) = Partial"
  by (simp add: modifyOutcome_def)

lemma verifyTask_fields:
  "verifyTask fs task strict = Inr r \<Longrightarrow>
     \<exists>st mp iss. checkTask fs task = Inr (st, mp, iss)
        \<and> status r = st \<and> matchPercentage r = mp \<and> issues r = iss
        \<and> taskId r = task_id task \<and> tv_file r = task_file task"
  by (auto simp: verifyTask_def detectUnplannedChanges_def split: sum.splits prod.splits)

lemma verifyTask_total:
  "checkTask fs task = Inr x \<Longrightarrow> \<exists>r. verifyTask fs task strict = Inr r"
  by (cases x) (simp add: verifyTask_def)

lemma checkTask_read:
  assumes "fs (task_file task) = Content c"
  shows "task_type task = Create \<Longrightarrow>
           checkTask fs task =
             Inr (fst (createOutcome task (calculateMatchPercentage c task)),
                  calculateMatchPercentage c task,
                  snd (createOutcome task (calculateMatchPercentage c task)))"
    and "task_type task = Modify \<Longrightarrow>
           checkTask fs task =
             Inr (fst (modifyOutcome task (calculateMatchPercentage c task)),
                  calculateMatchPercentage c task,
                  snd (modifyOutcome task (calculateMatchPercentage c task)))"
  using assms by (simp_all add: checkTask_def fs_exists_def readFile_def Let_def)

lemma checkTask_unreadable:
  assumes "fs (task_file task) = Unreadable" "task_type task = Create \<or> task_type task = Modify"
  shows "checkTask fs task = Inl (FileSystemError (''Failed to read file: '' @ task_file task))"
  using assms by (auto simp: checkTask_def fs_exists_def readFile_def Let_def)

lemma existing_file_result:
  assumes ty: "task_type task = Create \<or> task_type task = Modify"
    and ex: "fs_exists fs (task_file task)"
    and r: "verifyTask fs task strict = Inr r"
  shows "50 \<le> matchPercentage r \<and> (status r = Pass \<or> status r = Partial)"
proof -
  from verifyTask_fields [OF r] obtain st mp iss where
    ck: "checkTask fs task = Inr (st, mp, iss)" and f: "status r = st" "matchPercentage r = mp"
    by blast
  from ex have "fs (task_file task) \<noteq> Absent" by (simp add: fs_exists_def)
  then consider "fs (task_file task) = Unreadable" | c where "fs (task_file task) = Content c"
    by (cases "fs (task_file task)") auto
  then show ?thesis
  proof cases
    case 1
    from checkTask_unreadable [of fs task] 1 ty ck show ?thesis by simp
  next
    case (2 c)
    note b = calculateMatchPercentage_bounds [of c task]
    from ty show ?thesis
    proof (elim disjE)
      assume "task_type task = Create"
      from checkTask_read(1) [of fs task c] 2 this ck f b
        createOutcome_status [of "calculateMatchPercentage c task" task]
      show ?thesis by auto
    next
      assume "task_type task = Modify"
      from checkTask_read(2) [of fs task c] 2 this ck f b
        modifyOutcome_status [of "calculateMatchPercentage c task" task]
      show ?thesis by auto
    qed
  qed
qed

lemma readable_file_result:
  assumes ty: "task_type task = Create \<or> task_type task = Modify"
    and c: "fs (task_file task) = Content c"
  shows "\<exists>r. verifyTask fs task strict = Inr r
            \<and> matchPercentage r = calculateMatchPercentage c task"
proof -
  from ty obtain x where ck: "checkTask fs task = Inr x"
    and mp: "fst (snd x) = calculateMatchPercentage c task"
    using checkTask_read [of fs task c] c by auto
  from verifyTask_total [OF ck] obtain r where r: "verifyTask fs task strict = Inr r" by blast
  from verifyTask_fields [OF r] ck mp have "matchPercentage r = calculateMatchPercentage c task"
    by auto
  with r show ?thesis by blast
qed

subsection \<open>The summary and the overall status\<close>

text \<open>
  C1. A run of \<open>verify\<close> that returns holds one result per task it was to verify, in
  order. Its summary counts the results with status \<open>pass\<close>, \<open>partial\<close> and \<open>fail\<close>,
  \<open>criticalIssues\<close> counts the issues of severity \<open>critical\<close> or \<open>error\<close> of all the
  results, and the overall status is \<open>fail\<close> if \<open>criticalIssues > 0\<close> or
  \<open>tasksMissing > totalTasks / 2\<close>, else \<open>partial\<close> if \<open>tasksPartial > 0\<close> or
  \<open>tasksMissing > 0\<close>, else \<open>pass\<close>.
\<close>

theorem verify_summary_counts:
  assumes "verify now fs plan options = Inr r"
  shows "map (\<lambda>t. verifyTask fs t (case strictMode options of None \<Rightarrow> False | Some b \<Rightarrow> b))
           (getTasksToVerify plan options) = map Inr (taskResults r)
       \<and> totalTasks (summary r) = length (taskResults r)
       \<and> tasksCompleted (summary r) = length (filter (\<lambda>t. status t = Pass) (taskResults r))
       \<and> tasksPartial (summary r) = length (filter (\<lambda>t. status t = Partial) (taskResults r))
       \<and> tasksMissing (summary r) = length (filter (\<lambda>t. status t = Fail) (taskResults r))
       \<and> criticalIssues (summary r) =
           length (filter (\<lambda>i. severity i = Critical \<or> severity i = SevError)
                     (concat (map issues (taskResults r))))
       \<and> overallStatus r =
           (if criticalIssues (summary r) > 0
               \<or> real (tasksMissing (summary r)) > real (totalTasks (summary r)) / 2
            then Fail
            else if tasksPartial (summary r) > 0 \<or> tasksMissing (summary r) > 0 then Partial
            else Pass)"
  using verify_Inr [OF assms]
  by (simp add: summarize_def determineOverallStatus_def)

lemma demo_verify_returns: "\<not> isl (verify 5 demo_fs demo_plan demo_options)"
  by code_simp

theorem verify_summary_counts_witness:
  "\<exists>r. verify 5 demo_fs demo_plan demo_options = Inr r
     \<and> map (\<lambda>t. verifyTask demo_fs t False) (getTasksToVerify demo_plan demo_options)
          = map Inr (taskResults r)
     \<and> totalTasks (summary r) = length (taskResults r)
     \<and> tasksCompleted (summary r) = length (filter (\<lambda>t. status t = Pass) (taskResults r))
     \<and> tasksPartial (summary r) = length (filter (\<lambda>t. status t = Partial) (taskResults r))
     \<and> tasksMissing (summary r) = length (filter (\<lambda>t. status t = Fail) (taskResults r))
     \<and> criticalIssues (summary r) =
           length (filter (\<lambda>i. severity i = Critical \<or> severity i = SevError)
                     (concat (map issues (taskResults r))))
     \<and> overallStatus r =
           (if criticalIssues (summary r) > 0
               \<or> real (tasksMissing (summary r)) > real (totalTasks (summary r)) / 2
            then Fail
            else if tasksPartial (summary r) > 0 \<or> tasksMissing (summary r) > 0 then Partial
            else Pass)"
proof -
  from demo_verify_returns obtain r where r: "verify 5 demo_fs demo_plan demo_options = Inr r"
    by (cases "verify 5 demo_fs demo_plan demo_options") auto
  have s: "strictMode demo_options = None" by (simp add: demo_options_def)
  from verify_summary_counts [OF r] r s show ?thesis by simp
qed

subsection \<open>A task on a file that exists\<close>

text \<open>
  C10. For a \<open>create\<close> or \<open>modify\<close> task whose file exists, every result that
  \<open>verifyTask\<close> returns has a match percentage of at least 50 and the status \<open>pass\<close>
  or \<open>partial\<close>, never \<open>fail\<close>: the branches below 50 (\<open>create\<close>) and below 40
  (\<open>modify\<close>) are not reached. When the file can be read, \<open>verifyTask\<close> does return a
  result, and its match percentage is the computed one.
\<close>

theorem existing_file_never_fails:
  assumes ty: "task_type task = Create \<or> task_type task = Modify"
    and ex: "fs_exists fs (task_file task)"
  shows "(\<forall>r. verifyTask fs task strict = Inr r \<longrightarrow>
            50 \<le> matchPercentage r \<and> (status r = Pass \<or> status r = Partial))
       \<and> (\<forall>c. fs (task_file task) = Content c \<longrightarrow>
            (\<exists>r. verifyTask fs task strict = Inr r
                \<and> matchPercentage r = calculateMatchPercentage c task))"
  using existing_file_result [OF ty ex] readable_file_result [OF ty] by blast

theorem existing_file_never_fails_witness:
  "fs_exists demo_fs ''src/app.ts''
   \<and> (\<exists>r. verifyTask demo_fs (demo_task ''task-2'' Modify ''src/app.ts'' ''Modify src/app.ts'') False
              = Inr r
          \<and> 50 \<le> matchPercentage r \<and> (status r = Pass \<or> status r = Partial)
          \<and> matchPercentage r =
              calculateMatchPercentage ''console.log(1)''
                (demo_task ''task-2'' Modify ''src/app.ts'' ''Modify src/app.ts''))"
proof -
  let ?t = "demo_task ''task-2'' Modify ''src/app.ts'' ''Modify src/app.ts''"
  have ty: "task_type ?t = Create \<or> task_type ?t = Modify" by (simp add: demo_task_def)
  have f: "task_file ?t = ''src/app.ts''" by (simp add: demo_task_def)
  have ex: "fs_exists demo_fs (task_file ?t)" by (simp add: f fs_exists_def demo_fs_def)
  have c: "demo_fs (task_file ?t) = Content ''console.log(1)''" by (simp add: f demo_fs_def)
  from existing_file_never_fails [OF ty ex, of False] c ex f show ?thesis by auto
qed

subsection \<open>Failed tasks and error issues\<close>

lemma checkTask_fail_has_error:
  assumes "checkTask fs task = Inr (Fail, mp, iss)"
    and "task_type task = Create \<or> task_type task = Modify \<or> task_type task = Delete"
  shows "list_ex (\<lambda>i. severity i = SevError) iss"
  using assms
  by (auto simp: checkTask_def Let_def createOutcome_def modifyOutcome_def
           split: if_splits sum.splits)

lemma verifyTask_fail_has_error:
  assumes r: "verifyTask fs task strict = Inr r" and st: "status r = Fail"
    and ty: "task_type task = Create \<or> task_type task = Modify \<or> task_type task = Delete"
  shows "list_ex (\<lambda>i. severity i = SevError) (issues r)"
proof -
  from verifyTask_fields [OF r] st obtain mp iss where
    "checkTask fs task = Inr (Fail, mp, iss)" "issues r = iss" by auto
  with checkTask_fail_has_error [OF _ ty] show ?thesis by auto
qed

lemma count_fail_le_errors:
  assumes "list_all (\<lambda>r. status r = Fail \<longrightarrow> list_ex (\<lambda>i. severity i = SevError) (issues r)) rs"
  shows "length (filter (\<lambda>t. status t = Fail) rs)
           \<le> length (filter (\<lambda>i. severity i = Critical \<or> severity i = SevError)
                        (concat (map issues rs)))"
  using assms
proof (induction rs)
  case Nil
  then show ?case by simp
next
  case (Cons r rs)
  then have IH: "length (filter (\<lambda>t. status t = Fail) rs)
           \<le> length (filter (\<lambda>i. severity i = Critical \<or> severity i = SevError)
                        (concat (map issues rs)))" by simp
  show ?case
  proof (cases "status r = Fail")
    case True
    with Cons.prems have "list_ex (\<lambda>i. severity i = SevError) (issues r)" by simp
    then have "filter (\<lambda>i. severity i = Critical \<or> severity i = SevError) (issues r) \<noteq> []"
      by (auto simp: list_ex_iff filter_empty_conv)
    then have "1 \<le> length (filter (\<lambda>i. severity i = Critical \<or> severity i = SevError) (issues r))"
      by (simp add: Suc_leI)
    with IH True show ?thesis by simp
  next
    case False
    with IH show ?thesis by simp
  qed
qed

lemma map_verifyTask_results:
  assumes "map (\<lambda>t. verifyTask fs t strict) ts = map Inr rs"
    and "list_all P ts"
    and "\<And>t r. P t \<Longrightarrow> verifyTask fs t strict = Inr r \<Longrightarrow> Q r"
  shows "list_all Q rs"
  using assms(1,2)
proof (induction ts arbitrary: rs)
  case Nil
  then show ?case by simp
next
  case (Cons t ts)
  then obtain r rs' where "rs = r # rs'" by (cases rs) auto
  with Cons assms(3) show ?case by auto
qed

text \<open>
  C9. A result of status \<open>fail\<close> that \<open>verifyTask\<close> returns for a \<open>create\<close>,
  \<open>modify\<close> or \<open>delete\<close> task holds an issue of severity \<open>error\<close>. So when every
  task of a run is of these three types, \<open>criticalIssues\<close> is at least \<open>tasksMissing\<close>,
  and a run with a failed task has the overall status \<open>fail\<close>, not \<open>partial\<close>.
\<close>

theorem failed_tasks_carry_errors:
  "(\<forall>fs task strict r.
      (task_type task = Create \<or> task_type task = Modify \<or> task_type task = Delete)
      \<longrightarrow> verifyTask fs task strict = Inr r \<longrightarrow> status r = Fail
      \<longrightarrow> list_ex (\<lambda>i. severity i = SevError) (issues r))
   \<and> (\<forall>now fs plan options r.
        list_all (\<lambda>t. task_type t = Create \<or> task_type t = Modify \<or> task_type t = Delete)
          (getTasksToVerify plan options)
        \<longrightarrow> verify now fs plan options = Inr r
        \<longrightarrow> tasksMissing (summary r) \<le> criticalIssues (summary r)
            \<and> (list_ex (\<lambda>t. status t = Fail) (taskResults r) \<longrightarrow> overallStatus r = Fail))"
proof (intro conjI allI impI)
  fix fs task strict r
  assume "task_type task = Create \<or> task_type task = Modify \<or> task_type task = Delete"
    "verifyTask fs task strict = Inr r" "status r = Fail"
  then show "list_ex (\<lambda>i. severity i = SevError) (issues r)"
    using verifyTask_fail_has_error by blast
next
  fix now fs plan options r
  assume ty: "list_all (\<lambda>t. task_type t = Create \<or> task_type t = Modify \<or> task_type t = Delete)
          (getTasksToVerify plan options)"
    and r: "verify now fs plan options = Inr r"
  note v = verify_Inr [OF r]
  have all: "list_all (\<lambda>r. status r = Fail \<longrightarrow> list_ex (\<lambda>i. severity i = SevError) (issues r))
          (taskResults r)"
    by (rule map_verifyTask_results [OF v(1) ty]) (use verifyTask_fail_has_error in blast)
  from count_fail_le_errors [OF all] v(2)
  show le: "tasksMissing (summary r) \<le> criticalIssues (summary r)"
    by (simp add: summarize_def)
  assume "list_ex (\<lambda>t. status t = Fail) (taskResults r)"
  then have "filter (\<lambda>t. status t = Fail) (taskResults r) \<noteq> []"
    by (auto simp: list_ex_iff filter_empty_conv)
  then have "0 < tasksMissing (summary r)" using v(2) by (simp add: summarize_def)
  with le have "0 < criticalIssues (summary r)" by simp
  with v(3) show "overallStatus r = Fail" by (simp add: determineOverallStatus_def)
qed

theorem failed_tasks_carry_errors_witness:
  "list_all (\<lambda>t. task_type t = Create \<or> task_type t = Modify \<or> task_type t = Delete)
     (getTasksToVerify demo_plan demo_options)
   \<and> (\<exists>r. verify 5 demo_fs demo_plan demo_options = Inr r
          \<and> list_ex (\<lambda>t. status t = Fail) (taskResults r)
          \<and> tasksMissing (summary r) \<le> criticalIssues (summary r)
          \<and> overallStatus r = Fail)
   \<and> (\<exists>r. verifyTask demo_fs (demo_task ''task-4'' Create ''new.ts'' ''Create new.ts'') False = Inr r
          \<and> status r = Fail
          \<and> list_ex (\<lambda>i. severity i = SevError) (issues r))"
proof -
  let ?t = "demo_task ''task-4'' Create ''new.ts'' ''Create new.ts''"
  have ty: "list_all (\<lambda>t. task_type t = Create \<or> task_type t = Modify \<or> task_type t = Delete)
     (getTasksToVerify demo_plan demo_options)"
    by (simp add: getTasksToVerify_def demo_plan_def demo_options_def demo_task_def)
  have "\<not> isl (verify 5 demo_fs demo_plan demo_options)" by code_simp
  then obtain r where r: "verify 5 demo_fs demo_plan demo_options = Inr r"
    by (cases "verify 5 demo_fs demo_plan demo_options") auto
  have "list_ex (\<lambda>t. status t = Fail) (taskResults (projr (verify 5 demo_fs demo_plan demo_options)))"
    by code_simp
  with r have f: "list_ex (\<lambda>t. status t = Fail) (taskResults r)" by simp
  have "\<not> isl (verifyTask demo_fs ?t False) \<and> status (projr (verifyTask demo_fs ?t False)) = Fail"
    by code_simp
  then obtain q where q: "verifyTask demo_fs ?t False = Inr q" "status q = Fail"
    by (cases "verifyTask demo_fs ?t False") auto
  have t4: "task_type ?t = Create \<or> task_type ?t = Modify \<or> task_type ?t = Delete"
    by (simp add: demo_task_def)
  from failed_tasks_carry_errors ty r f q t4 show ?thesis by blast
qed

subsection \<open>The match percentage of a file that holds every keyword\<close>

lemma all_keywords_found_score:
  assumes ch: "changes task = []"
    and ne: "extractKeywords (task_description task) \<noteq> []"
    and all: "list_all (\<lambda>keyword. str_includes (toLowerCase content) (toLowerCase keyword))
               (extractKeywords (task_description task))"
  shows "calculateMatchPercentage content task = 80"
proof -
  let ?kw = "extractKeywords (task_description task)"
  from all have f: "filter (\<lambda>keyword. str_includes (toLowerCase content) (toLowerCase keyword)) ?kw = ?kw"
    by (simp add: list_all_iff)
  from ne have "0 < length ?kw" by simp
  have m: "max (length ?kw) 1 = length ?kw" using ne by (cases ?kw) simp_all
  have q: "real (length ?kw) / real (length ?kw) = 1" using \<open>0 < length ?kw\<close> by simp
  show ?thesis
    unfolding calculateMatchPercentage_def Let_def f m q using ch by simp
qed

text \<open>
  C5. For a \<open>create\<close> task with no changes whose description gives at least one
  keyword: when the file can be read and its content, in lower case, holds every keyword,
  the match percentage is exactly 80 (50, plus 30 for all the keywords, plus nothing for
  changes) and the status is \<open>pass\<close>.
\<close>

theorem create_all_keywords_is_80:
  assumes ty: "task_type task = Create"
    and ch: "changes task = []"
    and ne: "extractKeywords (task_description task) \<noteq> []"
    and c: "fs (task_file task) = Content content"
    and all: "list_all (\<lambda>keyword. str_includes (toLowerCase content) (toLowerCase keyword))
               (extractKeywords (task_description task))"
  shows "calculateMatchPercentage content task = 80
       \<and> (\<exists>r. verifyTask fs task strict = Inr r \<and> matchPercentage r = 80 \<and> status r = Pass
              \<and> issues r = [])"
proof -
  have s: "calculateMatchPercentage content task = 80"
    by (rule all_keywords_found_score [OF ch ne all])
  from checkTask_read(1) [of fs task content] c ty s
  have ck: "checkTask fs task = Inr (Pass, 80, [])"
    by (simp add: createOutcome_def)
  from verifyTask_total [OF ck] obtain r where r: "verifyTask fs task strict = Inr r" by blast
  from verifyTask_fields [OF r] ck have "matchPercentage r = 80 \<and> status r = Pass \<and> issues r = []"
    by auto
  with r s show ?thesis by blast
qed

theorem create_all_keywords_is_80_witness:
  "extractKeywords ''Add parseConfig helper function'' = [''parseconfig'', ''helper'']
   \<and> calculateMatchPercentage ''export function parseConfig() { return helper; }''
        (demo_task ''task-1'' Create ''src/config.ts'' ''Add parseConfig helper function'') = 80
   \<and> (\<exists>r. verifyTask demo_fs
              (demo_task ''task-1'' Create ''src/config.ts'' ''Add parseConfig helper function'') False
            = Inr r
          \<and> matchPercentage r = 80 \<and> status r = Pass \<and> issues r = [])"
proof -
  let ?t = "demo_task ''task-1'' Create ''src/config.ts'' ''Add parseConfig helper function''"
  let ?c = "''export function parseConfig() { return helper; }''"
  have k: "extractKeywords ''Add parseConfig helper function'' = [''parseconfig'', ''helper'']"
    by code_simp
  have d: "task_description ?t = ''Add parseConfig helper function''" "task_type ?t = Create"
    "changes ?t = []" "task_file ?t = ''src/config.ts''"
    by (simp_all add: demo_task_def)
  have ne: "extractKeywords (task_description ?t) \<noteq> []" by (simp add: d k)
  have c: "demo_fs (task_file ?t) = Content ?c" by (simp add: d demo_fs_def)
  have all: "list_all (\<lambda>keyword. str_includes (toLowerCase ?c) (toLowerCase keyword))
               (extractKeywords (task_description ?t))"
    unfolding d k by code_simp
  from create_all_keywords_is_80 [where task = ?t and fs = demo_fs and content = ?c and strict = False]
    d(2) d(3) ne c all k
  show ?thesis by simp
qed

subsection \<open>The thresholds of a modify task\<close>

text \<open>
  C4. For a \<open>modify\<close> task whose file exists, the status and the issues of every result
  are those of lines 173-193 at the result's match percentage, which is the computed one
  whenever the file can be read: \<open>pass\<close> with no issue from 70 on; \<open>partial\<close> with one
  \<open>incorrect-implementation\<close> warning from 40 to below 70; \<open>fail\<close> with one
  \<open>missing-implementation\<close> error below 40, where a \<open>create\<close> task reports
  \<open>incorrect-implementation\<close> below its threshold of 50.
\<close>

theorem modify_thresholds:
  assumes ty: "task_type task = Modify"
    and ex: "fs_exists fs (task_file task)"
  shows "(\<forall>r. verifyTask fs task strict = Inr r \<longrightarrow>
            status r = fst (modifyOutcome task (matchPercentage r))
          \<and> issues r = snd (modifyOutcome task (matchPercentage r)))
       \<and> (\<forall>c. fs (task_file task) = Content c \<longrightarrow>
            (\<exists>r. verifyTask fs task strict = Inr r
                \<and> matchPercentage r = calculateMatchPercentage c task))
       \<and> (\<forall>mp. (70 \<le> mp \<longrightarrow> modifyOutcome task mp = (Pass, []))
            \<and> (40 \<le> mp \<and> mp < 70 \<longrightarrow>
                 fst (modifyOutcome task mp) = Partial
               \<and> map (\<lambda>i. (severity i, issue_type i)) (snd (modifyOutcome task mp))
                   = [(Warning, IncorrectImplementation)])
            \<and> (mp < 40 \<longrightarrow>
                 fst (modifyOutcome task mp) = Fail
               \<and> map (\<lambda>i. (severity i, issue_type i)) (snd (modifyOutcome task mp))
                   = [(SevError, MissingImplementation)])
            \<and> (mp < 50 \<longrightarrow>
                 fst (createOutcome task mp) = Fail
               \<and> map (\<lambda>i. (severity i, issue_type i)) (snd (createOutcome task mp))
                   = [(SevError, IncorrectImplementation)]))"
proof -
  have a: "\<forall>r. verifyTask fs task strict = Inr r \<longrightarrow>
            status r = fst (modifyOutcome task (matchPercentage r))
          \<and> issues r = snd (modifyOutcome task (matchPercentage r))"
  proof (intro allI impI)
    fix r assume r: "verifyTask fs task strict = Inr r"
    from verifyTask_fields [OF r] obtain st mp iss where
      ck: "checkTask fs task = Inr (st, mp, iss)"
      and f: "status r = st" "matchPercentage r = mp" "issues r = iss"
      by blast
    from ex have "fs (task_file task) \<noteq> Absent" by (simp add: fs_exists_def)
    then consider "fs (task_file task) = Unreadable" | c where "fs (task_file task) = Content c"
      by (cases "fs (task_file task)") auto
    then show "status r = fst (modifyOutcome task (matchPercentage r))
          \<and> issues r = snd (modifyOutcome task (matchPercentage r))"
    proof cases
      case 1
      from checkTask_unreadable [of fs task] 1 ty ck show ?thesis by simp
    next
      case (2 c)
      from checkTask_read(2) [of fs task c] 2 ty ck f show ?thesis by auto
    qed
  qed
  have b: "\<forall>c. fs (task_file task) = Content c \<longrightarrow>
            (\<exists>r. verifyTask fs task strict = Inr r
                \<and> matchPercentage r = calculateMatchPercentage c task)"
    using readable_file_result [of task fs _ strict] ty by blast
  have c: "\<forall>mp. (70 \<le> mp \<longrightarrow> modifyOutcome task mp = (Pass, []))
            \<and> (40 \<le> mp \<and> mp < 70 \<longrightarrow>
                 fst (modifyOutcome task mp) = Partial
               \<and> map (\<lambda>i. (severity i, issue_type i)) (snd (modifyOutcome task mp))
                   = [(Warning, IncorrectImplementation)])
            \<and> (mp < 40 \<longrightarrow>
                 fst (modifyOutcome task mp) = Fail
               \<and> map (\<lambda>i. (severity i, issue_type i)) (snd (modifyOutcome task mp))
                   = [(SevError, MissingImplementation)])
            \<and> (mp < 50 \<longrightarrow>
                 fst (createOutcome task mp) = Fail
               \<and> map (\<lambda>i. (severity i, issue_type i)) (snd (createOutcome task mp))
                   = [(SevError, IncorrectImplementation)])"
    by (simp add: modifyOutcome_def createOutcome_def)
  from a b c show ?thesis by blast
qed

theorem modify_thresholds_witness:
  "fs_exists demo_fs ''src/app.ts''
   \<and> (\<exists>r. verifyTask demo_fs (demo_task ''task-2'' Modify ''src/app.ts'' ''Modify src/app.ts'') False
              = Inr r
          \<and> matchPercentage r =
              calculateMatchPercentage ''console.log(1)''
                (demo_task ''task-2'' Modify ''src/app.ts'' ''Modify src/app.ts'')
          \<and> status r =
              fst (modifyOutcome (demo_task ''task-2'' Modify ''src/app.ts'' ''Modify src/app.ts'')
                     (matchPercentage r))
          \<and> issues r =
              snd (modifyOutcome (demo_task ''task-2'' Modify ''src/app.ts'' ''Modify src/app.ts'')
                     (matchPercentage r)))
   \<and> modifyOutcome (demo_task ''task-2'' Modify ''src/app.ts'' ''Modify src/app.ts'') 75 = (Pass, [])
   \<and> fst (modifyOutcome (demo_task ''task-2'' Modify ''src/app.ts'' ''Modify src/app.ts'') 50) = Partial
   \<and> map (\<lambda>i. (severity i, issue_type i))
        (snd (modifyOutcome (demo_task ''task-2'' Modify ''src/app.ts'' ''Modify src/app.ts'') 50))
       = [(Warning, IncorrectImplementation)]
   \<and> fst (modifyOutcome (demo_task ''task-2'' Modify ''src/app.ts'' ''Modify src/app.ts'') 10) = Fail
   \<and> map (\<lambda>i. (severity i, issue_type i))
        (snd (modifyOutcome (demo_task ''task-2'' Modify ''src/app.ts'' ''Modify src/app.ts'') 10))
       = [(SevError, MissingImplementation)]
   \<and> map (\<lambda>i. (severity i, issue_type i))
        (snd (createOutcome (demo_task ''task-2'' Modify ''src/app.ts'' ''Modify src/app.ts'') 10))
       = [(SevError, IncorrectImplementation)]"
proof -
  let ?t = "demo_task ''task-2'' Modify ''src/app.ts'' ''Modify src/app.ts''"
  have ty: "task_type ?t = Modify" by (simp add: demo_task_def)
  have f: "task_file ?t = ''src/app.ts''" by (simp add: demo_task_def)
  have ex: "fs_exists demo_fs (task_file ?t)" by (simp add: f fs_exists_def demo_fs_def)
  have c: "demo_fs (task_file ?t) = Content ''console.log(1)''" by (simp add: f demo_fs_def)
  note m = modify_thresholds [OF ty ex, of False]
  from m c obtain r where r: "verifyTask demo_fs ?t False = Inr r"
    "matchPercentage r = calculateMatchPercentage ''console.log(1)'' ?t" by blast
  from m r have s: "status r = fst (modifyOutcome ?t (matchPercentage r))"
    "issues r = snd (modifyOutcome ?t (matchPercentage r))" by blast+
  from m have o: "(70 \<le> (75::real) \<longrightarrow> modifyOutcome ?t 75 = (Pass, []))"
    "(40 \<le> (50::real) \<and> (50::real) < 70 \<longrightarrow>
                 fst (modifyOutcome ?t 50) = Partial
               \<and> map (\<lambda>i. (severity i, issue_type i)) (snd (modifyOutcome ?t 50))
                   = [(Warning, IncorrectImplementation)])"
    "((10::real) < 40 \<longrightarrow>
                 fst (modifyOutcome ?t 10) = Fail
               \<and> map (\<lambda>i. (severity i, issue_type i)) (snd (modifyOutcome ?t 10))
                   = [(SevError, MissingImplementation)])"
    "((10::real) < 50 \<longrightarrow>
                 fst (createOutcome ?t 10) = Fail
               \<and> map (\<lambda>i. (severity i, issue_type i)) (snd (createOutcome ?t 10))
                   = [(SevError, IncorrectImplementation)])"
    by blast+
  from o have o': "modifyOutcome ?t 75 = (Pass, [])"
    "fst (modifyOutcome ?t 50) = Partial"
    "map (\<lambda>i. (severity i, issue_type i)) (snd (modifyOutcome ?t 50))
                   = [(Warning, IncorrectImplementation)]"
    "fst (modifyOutcome ?t 10) = Fail"
    "map (\<lambda>i. (severity i, issue_type i)) (snd (modifyOutcome ?t 10))
                   = [(SevError, MissingImplementation)]"
    "map (\<lambda>i. (severity i, issue_type i)) (snd (createOutcome ?t 10))
                   = [(SevError, IncorrectImplementation)]"
    by simp_all
  from ex f have "fs_exists demo_fs ''src/app.ts''" by simp
  with r s o' show ?thesis by blast
qed

subsection \<open>A file that exists and cannot be read\<close>

lemma verifyTask_never_error:
  "verifyTask fs task strict = Inr r \<Longrightarrow> status r \<noteq> StatusError"
proof -
  assume r: "verifyTask fs task strict = Inr r"
  from verifyTask_fields [OF r] obtain st mp iss where
    ck: "checkTask fs task = Inr (st, mp, iss)" and f: "status r = st" by blast
  from ck have "st \<noteq> StatusError"
    by (auto simp: checkTask_def Let_def createOutcome_def modifyOutcome_def
           split: if_splits sum.splits TaskType.splits)
  with f show ?thesis by simp
qed

lemma verifyTask_unreadable:
  assumes "fs (task_file task) = Unreadable" "task_type task = Create \<or> task_type task = Modify"
  shows "verifyTask fs task strict = Inl (FileSystemError (''Failed to read file: '' @ task_file task))"
  using checkTask_unreadable [of fs task] assms by (simp add: verifyTask_def)

lemma verifyLoop_raises:
  assumes "t \<in> set ts" "verifyTask fs t strict = Inl e"
  shows "\<exists>e'. verifyLoop fs strict ts rs iss = Inl e'"
  using assms
proof (induction ts arbitrary: rs iss)
  case Nil
  then show ?case by simp
next
  case (Cons a ts)
  show ?case
  proof (cases "verifyTask fs a strict")
    case (Inl e')
    then show ?thesis by simp
  next
    case (Inr r)
    with Cons.prems have "t \<in> set ts" by auto
    from Cons.IH [OF this Cons.prems(2)] Inr show ?thesis by simp
  qed
qed

text \<open>
  C8, as the specification states it, fails: the task \<open>locked_task\<close> names a file that
  exists and cannot be read; \<open>verifyTask\<close> gives it no result, and the run over the two
  tasks of \<open>locked_plan\<close> ends with the error, with no result for the second task.
\<close>

theorem read_failure_counterexample:
  "fs_exists demo_fs (task_file locked_task)
   \<and> readFile demo_fs (task_file locked_task)
       = Inl (FileSystemError ''Failed to read file: locked.ts'')
   \<and> verifyTask demo_fs locked_task False
       = Inl (FileSystemError ''Failed to read file: locked.ts'')
   \<and> getTasksToVerify locked_plan demo_options
       = [locked_task, demo_task ''task-2'' Delete ''gone.ts'' ''Delete gone.ts'']
   \<and> verify 5 demo_fs locked_plan demo_options
       = Inl (FileSystemError ''Failed to read file: locked.ts'')"
  by (simp add: fs_exists_def readFile_def verifyTask_def checkTask_def verify_def
        getTasksToVerify_def locked_plan_def locked_task_def demo_plan_def demo_task_def
        demo_fs_def demo_options_def)

text \<open>
  C8, amended. No result of \<open>verifyTask\<close> has the status \<open>error\<close>. For a \<open>create\<close>
  or \<open>modify\<close> task whose file exists and cannot be read, \<open>verifyTask\<close> raises the
  \<open>FileSystemError\<close> of \<open>readFile\<close>, and every run of \<open>verify\<close> that is to verify
  such a task raises an error and returns no result.
\<close>

theorem read_failure_aborts_run:
  "(\<forall>fs task strict r. verifyTask fs task strict = Inr r \<longrightarrow> status r \<noteq> StatusError)
   \<and> (\<forall>fs task strict.
        (task_type task = Create \<or> task_type task = Modify)
        \<longrightarrow> fs (task_file task) = Unreadable
        \<longrightarrow> verifyTask fs task strict
              = Inl (FileSystemError (''Failed to read file: '' @ task_file task)))
   \<and> (\<forall>now fs plan options task.
        task \<in> set (getTasksToVerify plan options)
        \<longrightarrow> (task_type task = Create \<or> task_type task = Modify)
        \<longrightarrow> fs (task_file task) = Unreadable
        \<longrightarrow> (\<exists>e. verify now fs plan options = Inl e))"
proof (intro conjI allI impI)
  fix fs task strict r
  assume "verifyTask fs task strict = Inr r"
  then show "status r \<noteq> StatusError" by (rule verifyTask_never_error)
next
  fix fs :: project_files and task :: Task and strict
  assume "task_type task = Create \<or> task_type task = Modify" "fs (task_file task) = Unreadable"
  then show "verifyTask fs task strict
              = Inl (FileSystemError (''Failed to read file: '' @ task_file task))"
    using verifyTask_unreadable [of fs task strict] by simp
next
  fix now and fs :: project_files and plan options and task :: Task
  assume m: "task \<in> set (getTasksToVerify plan options)"
    and ty: "task_type task = Create \<or> task_type task = Modify"
    and u: "fs (task_file task) = Unreadable"
  let ?strict = "case strictMode options of None \<Rightarrow> False | Some b \<Rightarrow> b"
  from verifyLoop_raises [OF m verifyTask_unreadable [of fs task ?strict, OF u ty]]
  obtain e where "verifyLoop fs ?strict (getTasksToVerify plan options) [] [] = Inl e" by blast
  then have "verify now fs plan options = Inl e" by (simp add: verify_def)
  then show "\<exists>e. verify now fs plan options = Inl e" by blast
qed

theorem read_failure_aborts_run_witness:
  "locked_task \<in> set (getTasksToVerify locked_plan demo_options)
   \<and> demo_fs (task_file locked_task) = Unreadable
   \<and> verifyTask demo_fs locked_task False
       = Inl (FileSystemError (''Failed to read file: '' @ task_file locked_task))
   \<and> (\<exists>e. verify 5 demo_fs locked_plan demo_options = Inl e)
   \<and> (\<exists>r. verifyTask demo_fs (demo_task ''task-2'' Delete ''gone.ts'' ''Delete gone.ts'') False = Inr r
          \<and> status r \<noteq> StatusError)"
proof -
  have m: "locked_task \<in> set (getTasksToVerify locked_plan demo_options)"
    by (simp add: getTasksToVerify_def locked_plan_def demo_plan_def demo_options_def)
  have ty: "task_type locked_task = Create \<or> task_type locked_task = Modify"
    by (simp add: locked_task_def demo_task_def)
  have u: "demo_fs (task_file locked_task) = Unreadable"
    by (simp add: locked_task_def demo_task_def demo_fs_def)
  let ?d = "demo_task ''task-2'' Delete ''gone.ts'' ''Delete gone.ts''"
  have "\<not> isl (verifyTask demo_fs ?d False)" by code_simp
  then obtain r where r: "verifyTask demo_fs ?d False = Inr r"
    by (cases "verifyTask demo_fs ?d False") auto
  from read_failure_aborts_run m ty u r show ?thesis by blast
qed

section \<open>Properties of the planner\<close>

subsection \<open>The matches of the phase pattern\<close>

lemma phasePattern_unfold:
  "phasePattern = Seq (Lit ''##'') (Seq (Plus is_space) (Seq (Opt phasePrefix) phaseBody))"
  by (simp add: phasePattern_def phasePrefix_def phaseBody_def phaseAhead_def)

lemma m_cap_advance [simp]: "m_cap (advance n st) = m_cap st"
  by (simp add: advance_def)

lemma m_rest_advance [simp]: "m_rest (advance n st) = drop n (m_rest st)"
  by (cases "n = 0") (simp_all add: advance_def)

lemma rmatch_Seq_elim:
  "st \<in> set (rmatch (Seq r s) x) \<Longrightarrow> \<exists>y \<in> set (rmatch r x). st \<in> set (rmatch s y)"
  by (simp only: rmatch.simps set_concat set_map) blast

lemma rmatch_Group_cap: "st \<in> set (rmatch (Group r) x) \<Longrightarrow> m_cap st \<noteq> None"
  by (simp only: rmatch.simps set_map) (auto simp: capture_of_def)

lemma rmatch_Ahead_same: "st \<in> set (rmatch (Ahead r) x) \<Longrightarrow> st = x"
  by (simp only: rmatch.simps split: if_splits) simp_all

lemma phaseBody_cap:
  "st \<in> set (rmatch phaseBody x) \<Longrightarrow> m_cap st \<noteq> None"
  unfolding phaseBody_def phaseAhead_def
  using rmatch_Seq_elim rmatch_Group_cap rmatch_Ahead_same by blast

lemma phasePattern_cap:
  assumes "st \<in> set (rmatch phasePattern x)"
  shows "m_cap st \<noteq> None"
proof -
  from assms obtain y1 where
    "st \<in> set (rmatch (Seq (Plus is_space) (Seq (Opt phasePrefix) phaseBody)) y1)"
    unfolding phasePattern_unfold using rmatch_Seq_elim by blast
  then obtain y2 where "st \<in> set (rmatch (Seq (Opt phasePrefix) phaseBody) y2)"
    using rmatch_Seq_elim by blast
  then obtain y3 where "st \<in> set (rmatch phaseBody y3)"
    using rmatch_Seq_elim by blast
  then show ?thesis by (rule phaseBody_cap)
qed

lemma exec_in_rmatch:
  "exec r prev s = Some m \<Longrightarrow>
     \<exists>prev'. snd m \<in> set (rmatch r \<lparr>m_prev = prev', m_rest = fst m, m_cap = None\<rparr>)"
proof (induction s arbitrary: prev)
  case Nil
  then show ?case by (intro exI [of _ prev]) (auto split: list.splits)
next
  case (Cons c cs)
  show ?case
  proof (cases "rmatch r \<lparr>m_prev = prev, m_rest = c # cs, m_cap = None\<rparr>")
    case Nil
    with Cons.prems have "exec r (Some c) cs = Some m" by simp
    from Cons.IH [OF this] show ?thesis .
  next
    case (Cons st sts)
    with Cons.prems have "m = (c # cs, st)" by simp
    with Cons show ?thesis by (intro exI [of _ prev]) simp
  qed
qed

lemma matchAllFrom_caps:
  "(\<And>st x. st \<in> set (rmatch r x) \<Longrightarrow> m_cap st \<noteq> None)
     \<Longrightarrow> list_all (\<lambda>m. snd m \<noteq> None) (matchAllFrom r prev s)"
proof (induction r prev s rule: matchAllFrom.induct)
  case (1 r prev s)
  show ?case
  proof (cases "exec r prev s")
    case None
    then show ?thesis by (simp add: matchAllFrom.simps)
  next
    case (Some m)
    from exec_in_rmatch [OF Some] obtain prev' where
      "snd m \<in> set (rmatch r \<lparr>m_prev = prev', m_rest = fst m, m_cap = None\<rparr>)" by blast
    then have "m_cap (snd m) \<noteq> None" by (rule "1.prems")
    then have c: "snd (to_match m) \<noteq> None"
      by (simp add: to_match_def)
    show ?thesis
    proof (cases "matched_length m = 0")
      case True
      show ?thesis
      proof (cases "fst m")
        case Nil
        with Some True c show ?thesis by (simp add: matchAllFrom.simps [of r prev s])
      next
        case (Cons a as)
        from "1.IH"(1) [OF Some True Cons "1.prems"] Some True c Cons show ?thesis
          by (simp add: matchAllFrom.simps [of r prev s])
      qed
    next
      case False
      from "1.IH"(2) [OF Some False "1.prems"] Some False c show ?thesis
        by (simp add: matchAllFrom.simps [of r prev s])
    qed
  qed
qed

lemma matchPhases_total:
  assumes "list_all (\<lambda>m. snd m \<noteq> None) ms"
  shows "\<exists>ps. matchPhases idx ms acc = Inr (acc @ ps) \<and> length ps = length ms
           \<and> (\<forall>k < length ms. matchPhase (idx + k) (ms ! k) = Inr (ps ! k))"
  using assms
proof (induction ms arbitrary: idx acc)
  case Nil
  then show ?case by simp
next
  case (Cons m ms)
  from Cons.prems obtain c where c: "snd m = Some c" by auto
  then obtain p where p: "matchPhase idx m = Inr p" by (simp add: matchPhase_def Let_def)
  from Cons.prems have "list_all (\<lambda>m. snd m \<noteq> None) ms" by simp
  from Cons.IH [OF this, of "idx + 1" "acc @ [p]"] obtain ps where
    ps: "matchPhases (idx + 1) ms (acc @ [p]) = Inr ((acc @ [p]) @ ps)" "length ps = length ms"
      "\<forall>k < length ms. matchPhase (idx + 1 + k) (ms ! k) = Inr (ps ! k)" by blast
  have "\<forall>k < length (m # ms). matchPhase (idx + k) ((m # ms) ! k) = Inr ((p # ps) ! k)"
  proof (intro allI impI)
    fix k assume "k < length (m # ms)"
    then show "matchPhase (idx + k) ((m # ms) ! k) = Inr ((p # ps) ! k)"
      using p ps(3) by (cases k) auto
  qed
  with p ps show ?case by (intro exI [of _ "p # ps"]) simp
qed

lemma extractTasks_nonempty: "extractTasks content \<noteq> []"
  by (simp add: extractTasks_def Let_def)

lemma matchPhase_tasks: "matchPhase idx m = Inr p \<Longrightarrow> tasks p \<noteq> []"
  by (auto simp: matchPhase_def Let_def extractTasks_nonempty split: option.splits)

lemma extractPhases_shape:
  "\<exists>ps. extractPhases markdown = Inr ps
      \<and> (if matchAll phasePattern markdown = [] then ps = [implementationPhase markdown]
          else length ps = length (matchAll phasePattern markdown)
             \<and> (\<forall>k < length ps. matchPhase k (matchAll phasePattern markdown ! k) = Inr (ps ! k)))"
proof (cases "matchAll phasePattern markdown = []")
  case True
  then show ?thesis by (simp add: extractPhases_def)
next
  case False
  have "list_all (\<lambda>m. snd m \<noteq> None) (matchAll phasePattern markdown)"
    unfolding matchAll_def by (rule matchAllFrom_caps) (rule phasePattern_cap)
  from matchPhases_total [OF this, of 0 "[]"] obtain ps where
    ps: "matchPhases 0 (matchAll phasePattern markdown) [] = Inr ps"
      "length ps = length (matchAll phasePattern markdown)"
      "\<forall>k < length (matchAll phasePattern markdown).
          matchPhase k (matchAll phasePattern markdown ! k) = Inr (ps ! k)" by auto
  with False have "extractPhases markdown = Inr ps" by (simp add: extractPhases_def Let_def)
  with ps False show ?thesis by simp
qed

lemma extractPhases_tasks:
  assumes "extractPhases markdown = Inr ps"
  shows "ps \<noteq> [] \<and> list_all (\<lambda>p. tasks p \<noteq> []) ps"
proof -
  from extractPhases_shape [of markdown] assms have
    s: "if matchAll phasePattern markdown = [] then ps = [implementationPhase markdown]
          else length ps = length (matchAll phasePattern markdown)
             \<and> (\<forall>k < length ps. matchPhase k (matchAll phasePattern markdown ! k) = Inr (ps ! k))"
    by auto
  show ?thesis
  proof (cases "matchAll phasePattern markdown = []")
    case True
    with s show ?thesis by (simp add: implementationPhase_def extractTasks_nonempty)
  next
    case False
    with s have l: "length ps = length (matchAll phasePattern markdown)"
      and a: "\<forall>k < length ps. matchPhase k (matchAll phasePattern markdown ! k) = Inr (ps ! k)"
      by auto
    from l False have "ps \<noteq> []" by auto
    moreover have "list_all (\<lambda>p. tasks p \<noteq> []) ps"
      unfolding list_all_length using a matchPhase_tasks by blast
    ultimately show ?thesis by simp
  qed
qed

subsection \<open>A document with no heading mark\<close>

lemma rmatch_Lit_nonempty:
  "rmatch (Lit p) x \<noteq> [] \<Longrightarrow> startsWith (m_rest x) p \<and> rmatch (Lit p) x = [advance (length p) x]"
  by (simp add: rmatch.simps split: if_splits)

lemma rmatch_Plus_nonempty:
  "rmatch (Plus P) x \<noteq> [] \<Longrightarrow> run_length P x \<noteq> 0"
  by (simp add: rmatch.simps del: upt_Suc)

lemma rmatch_Seq_nonempty:
  "rmatch (Seq r s) x \<noteq> [] \<Longrightarrow> rmatch r x \<noteq> []"
  by (cases "rmatch r x") (simp_all add: rmatch.simps)

lemma rmatch_Seq_nonempty2:
  "rmatch (Seq r s) x \<noteq> [] \<Longrightarrow> \<exists>y \<in> set (rmatch r x). rmatch s y \<noteq> []"
  by (simp only: rmatch.simps concat_eq_Nil_conv set_map) blast

lemma phasePattern_needs_mark:
  assumes "rmatch phasePattern \<lparr>m_prev = prev, m_rest = s, m_cap = None\<rparr> \<noteq> []"
  shows "\<exists>c cs. s = CHR ''#'' # CHR ''#'' # c # cs \<and> is_space c"
proof -
  let ?x = "\<lparr>m_prev = prev, m_rest = s, m_cap = None\<rparr>"
  from assms obtain y where y: "y \<in> set (rmatch (Lit ''##'') ?x)"
    and n: "rmatch (Seq (Plus is_space) (Seq (Opt phasePrefix) phaseBody)) y \<noteq> []"
    unfolding phasePattern_unfold using rmatch_Seq_nonempty2 by blast
  from y have ne: "rmatch (Lit ''##'') ?x \<noteq> []" by auto
  from rmatch_Lit_nonempty [OF ne] y have sw: "startsWith s ''##''" and yy: "y = advance 2 ?x"
    by (auto simp: numeral_2_eq_2)
  from sw obtain t where s: "s = CHR ''#'' # CHR ''#'' # t"
    by (cases s; cases "tl s") auto
  from rmatch_Plus_nonempty [OF rmatch_Seq_nonempty [OF n]]
  have "takeWhile is_space t \<noteq> []" by (simp add: run_length_def yy s)
  then obtain c cs where "t = c # cs" "is_space c" by (cases t) (auto split: if_splits)
  with s show ?thesis by simp
qed

lemma no_mark_no_exec:
  "\<not> hasHeadingMark s \<Longrightarrow> exec phasePattern prev s = None"
proof (induction s arbitrary: prev)
  case Nil
  have "rmatch phasePattern \<lparr>m_prev = prev, m_rest = [], m_cap = None\<rparr> = []"
    using phasePattern_needs_mark [of prev "[]"] by auto
  then show ?case by simp
next
  case (Cons a s)
  have n: "rmatch phasePattern \<lparr>m_prev = prev, m_rest = a # s, m_cap = None\<rparr> = []"
  proof (rule ccontr)
    assume "rmatch phasePattern \<lparr>m_prev = prev, m_rest = a # s, m_cap = None\<rparr> \<noteq> []"
    from phasePattern_needs_mark [OF this] Cons.prems show False by auto
  qed
  from Cons.prems have "\<not> hasHeadingMark s"
    by (cases s; cases "tl s") auto
  from Cons.IH [OF this] n show ?case by simp
qed

lemma no_mark_no_match:
  "\<not> hasHeadingMark markdown \<Longrightarrow> matchAll phasePattern markdown = []"
  by (simp add: matchAll_def matchAllFrom.simps [of phasePattern None markdown] no_mark_no_exec)

lemma rmatch_Plus_set:
  "st \<in> set (rmatch (Plus P) x) \<Longrightarrow> \<exists>n. 1 \<le> n \<and> n \<le> run_length P x \<and> st = advance n x"
  by (auto simp del: upt_Suc simp add: rmatch.simps)

lemma concat_map_skip:
  "(\<And>x. x \<in> set xs \<Longrightarrow> f x = []) \<Longrightarrow> concat (map f (xs @ a # ys)) = f a @ concat (map f ys)"
  by (induction xs) auto

lemma concat_map_head:
  assumes "G \<noteq> []" and "\<And>g. g \<in> set G \<Longrightarrow> \<exists>y ys. f g = y # ys \<and> Q y"
  shows "\<exists>y ys. concat (map f G) = y # ys \<and> Q y"
proof -
  from assms(1) obtain g G' where G: "G = g # G'" by (cases G) auto
  with assms(2) [of g] obtain y ys where "f g = y # ys" "Q y" by auto
  with G show ?thesis by simp
qed

lemma in_set_nonempty: "y \<in> set xs \<Longrightarrow> xs \<noteq> []"
  by (cases xs) simp_all

lemma starts_mark_iff:
  "starts_mark s \<longleftrightarrow> startsWith s ''##'' \<and> takeWhile is_space (drop 2 s) \<noteq> []"
proof (cases s)
  case Nil
  then show ?thesis by simp
next
  case (Cons a s1)
  show ?thesis
  proof (cases s1)
    case Nil
    with Cons show ?thesis by simp
  next
    case (Cons b s2)
    with \<open>s = a # s1\<close> show ?thesis by (cases s2) auto
  qed
qed

lemma rmatch_Lit_yes:
  "startsWith (m_rest x) p \<Longrightarrow> rmatch (Lit p) x = [advance (length p) x]"
  by (simp only: rmatch.simps if_True)

lemma rmatch_Lit_no: "\<not> startsWith (m_rest x) p \<Longrightarrow> rmatch (Lit p) x = []"
  by (simp only: rmatch.simps if_False)

lemma rmatch_Plus_zero: "run_length P x = 0 \<Longrightarrow> rmatch (Plus P) x = []"
  by (simp only: rmatch.simps) simp

lemma rmatch_Plus_pos: "run_length P x \<noteq> 0 \<Longrightarrow> rmatch (Plus P) x \<noteq> []"
  by (simp only: rmatch.simps) (simp del: upt_Suc)

lemma run_length_advance:
  "run_length P (advance n x) = length (takeWhile P (drop n (m_rest x)))"
  by (simp add: run_length_def)

lemma lookahead_mark:
  "rmatch (Seq (Lit ''##'') (Plus is_space)) x \<noteq> [] \<longleftrightarrow> starts_mark (m_rest x)"
proof (cases "startsWith (m_rest x) ''##''")
  case False
  then have "rmatch (Seq (Lit ''##'') (Plus is_space)) x = []"
    by (simp add: rmatch.simps(7) rmatch_Lit_no)
  with False show ?thesis by (simp add: starts_mark_iff)
next
  case True
  then have e: "rmatch (Seq (Lit ''##'') (Plus is_space)) x = rmatch (Plus is_space) (advance 2 x)"
    by (simp add: rmatch.simps(7) rmatch_Lit_yes numeral_2_eq_2)
  show ?thesis
  proof (cases "takeWhile is_space (drop 2 (m_rest x)) = []")
    case t: True
    then have "run_length is_space (advance 2 x) = 0" by (simp add: run_length_advance)
    from rmatch_Plus_zero [OF this] e t show ?thesis by (simp add: starts_mark_iff)
  next
    case f: False
    then have "run_length is_space (advance 2 x) \<noteq> 0" by (simp add: run_length_advance)
    from rmatch_Plus_pos [OF this] e f True show ?thesis by (simp add: starts_mark_iff)
  qed
qed

lemma rmatch_EndOfInput_iff: "rmatch EndOfInput x \<noteq> [] \<longleftrightarrow> m_rest x = []"
  by (simp only: rmatch.simps) simp

lemma phaseAhead_yes:
  "m_rest x = [] \<or> starts_mark (m_rest x) \<Longrightarrow> rmatch phaseAhead x = [x]"
proof -
  assume "m_rest x = [] \<or> starts_mark (m_rest x)"
  then have "rmatch (Alt (Seq (Lit ''##'') (Plus is_space)) EndOfInput) x \<noteq> []"
    using lookahead_mark [of x] rmatch_EndOfInput_iff [of x]
    by (simp only: rmatch.simps(8) append_is_Nil_conv) blast
  then show ?thesis
    unfolding phaseAhead_def by (simp only: rmatch.simps(11)) simp
qed

lemma phaseAhead_no:
  "m_rest x \<noteq> [] \<Longrightarrow> \<not> starts_mark (m_rest x) \<Longrightarrow> rmatch phaseAhead x = []"
proof -
  assume "m_rest x \<noteq> []" "\<not> starts_mark (m_rest x)"
  then have "rmatch (Alt (Seq (Lit ''##'') (Plus is_space)) EndOfInput) x = []"
    using lookahead_mark [of x] rmatch_EndOfInput_iff [of x]
    by (simp only: rmatch.simps(8) append_is_Nil_conv) blast
  then show ?thesis
    unfolding phaseAhead_def by (simp only: rmatch.simps(11)) simp
qed

lemma run_length_any: "run_length any_char x = length (m_rest x)"
proof -
  have "takeWhile any_char (m_rest x) = m_rest x"
    by (simp add: takeWhile_eq_all_conv any_char_def)
  then show ?thesis by (simp only: run_length_def)
qed

lemma starts_mark_hd: "starts_mark s \<Longrightarrow> \<exists>cs. s = CHR ''#'' # cs"
  by (simp add: starts_mark_iff) (cases s, simp_all)

lemma upt_split3:
  "1 \<le> n \<Longrightarrow> n \<le> k \<Longrightarrow> [1..<Suc k] = [1..<n] @ n # [Suc n..<Suc k]"
proof -
  assume a: "1 \<le> n" "n \<le> k"
  then have "[1..<Suc k] = [1..<n] @ [n..<Suc k]"
    by (metis le_SucI upt_add_eq_append le_Suc_ex)
  moreover from a have "[n..<Suc k] = n # [Suc n..<Suc k]" by (simp add: upt_conv_Cons)
  ultimately show ?thesis by simp
qed

lemma m_rest_capture_of [simp]: "m_rest (capture_of g st') = m_rest st'"
  by (simp add: capture_of_def)

lemma phaseBody_eq:
  "rmatch phaseBody g =
     concat (map (\<lambda>n. rmatch phaseAhead (capture_of g (advance n g))) [1..<Suc (length (m_rest g))])"
  by (simp add: phaseBody_def rmatch.simps(7) rmatch.simps(10) rmatch.simps(4) run_length_any
        comp_def del: upt_Suc)

subsection \<open>The first match at the start of a section\<close>

lemma is_digit_facts:
  "is_digit c \<Longrightarrow> \<not> is_space c \<and> \<not> colon_or_space c \<and> c \<noteq> CHR ''#''"
  by (auto simp: is_digit_def is_space_def colon_or_space_def)

lemma takeWhile_all_then:
  "list_all P xs \<Longrightarrow> (ys = [] \<or> \<not> P (hd ys)) \<Longrightarrow> takeWhile P (xs @ ys) = xs"
  by (induction xs) (auto simp: takeWhile_eq_Nil_iff)

lemma phasePrefix_unfold:
  "phasePrefix =
     Seq (Lit ''Phase'') (Seq (Plus is_space) (Seq (Plus is_digit) (Plus colon_or_space)))"
  by (simp add: phasePrefix_def)

lemma rmatch_Lit_set:
  "y \<in> set (rmatch (Lit p) x) \<Longrightarrow> startsWith (m_rest x) p \<and> y = advance (length p) x"
  by (cases "startsWith (m_rest x) p") (simp_all add: rmatch_Lit_yes rmatch_Lit_no)

lemma hasHeadingMark_Cons: "hasHeadingMark s \<Longrightarrow> hasHeadingMark (c # s)"
  by (cases s; cases "tl s") auto

lemma hasHeadingMark_suffix: "\<not> hasHeadingMark (w @ v) \<Longrightarrow> \<not> hasHeadingMark v"
  by (induction w) (auto dest: hasHeadingMark_Cons)

lemma starts_mark_cases:
  "starts_mark s \<Longrightarrow> \<exists>c cs. s = CHR ''#'' # CHR ''#'' # c # cs \<and> is_space c"
  by (cases s rule: starts_mark.cases) auto

lemma hash_not_space: "\<not> is_space CHR ''#''"
  by (simp add: is_space_def)

lemma no_mark_append:
  assumes "u \<noteq> []" and "\<not> hasHeadingMark u" and "rest0 = [] \<or> starts_mark rest0"
  shows "\<not> starts_mark (u @ rest0)"
proof (cases u)
  case Nil
  with assms(1) show ?thesis by simp
next
  case u1: (Cons a u1)
  show ?thesis
  proof (cases u1)
    case Nil
    from assms(3) show ?thesis
    proof
      assume "rest0 = []"
      with u1 Nil show ?thesis by simp
    next
      assume "starts_mark rest0"
      from starts_mark_cases [OF this] u1 Nil show ?thesis
        by (auto simp: hash_not_space)
    qed
  next
    case u2: (Cons b u2)
    show ?thesis
    proof (cases u2)
      case Nil
      from assms(3) show ?thesis
      proof
        assume "rest0 = []"
        with u1 u2 Nil show ?thesis by simp
      next
        assume "starts_mark rest0"
        from starts_mark_cases [OF this] u1 u2 Nil show ?thesis
          by (auto simp: hash_not_space)
      qed
    next
      case (Cons c u3)
      with u1 u2 assms(2) show ?thesis by auto
    qed
  qed
qed

lemma phaseBody_first:
  assumes g: "m_rest g = v @ rest0" and v: "v \<noteq> []" and h: "\<not> hasHeadingMark v"
    and r: "rest0 = [] \<or> starts_mark rest0"
  shows "\<exists>y ys. rmatch phaseBody g = y # ys \<and> m_rest y = rest0"
proof -
  let ?F = "\<lambda>n. rmatch phaseAhead (capture_of g (advance n g))"
  let ?k = "length (m_rest g)"
  from v have n1: "1 \<le> length v" by (cases v) simp_all
  have n2: "length v \<le> ?k" by (simp add: g)
  have skip: "?F n = []" if "n \<in> set [1..<length v]" for n
  proof -
    from that have n: "1 \<le> n" "n < length v" by simp_all
    have m: "m_rest (capture_of g (advance n g)) = drop n v @ rest0" using n by (simp add: g)
    from n have d: "drop n v \<noteq> []" by simp
    from h have "\<not> hasHeadingMark (drop n v)"
      using hasHeadingMark_suffix [of "take n v" "drop n v"] by simp
    from no_mark_append [OF d this r] m
    have "\<not> starts_mark (m_rest (capture_of g (advance n g)))" by simp
    moreover from d m have "m_rest (capture_of g (advance n g)) \<noteq> []" by simp
    ultimately show ?thesis by (rule phaseAhead_no [rotated])
  qed
  have hit: "?F (length v) = [capture_of g (advance (length v) g)]"
    by (rule phaseAhead_yes) (use r in \<open>simp add: g\<close>)
  have "rmatch phaseBody g = concat (map ?F ([1..<length v] @ length v # [Suc (length v)..<Suc ?k]))"
    unfolding phaseBody_eq using upt_split3 [OF n1 n2] by simp
  also have "\<dots> = ?F (length v) @ concat (map ?F [Suc (length v)..<Suc ?k])"
    by (rule concat_map_skip) (rule skip)
  finally have "rmatch phaseBody g =
      capture_of g (advance (length v) g) # concat (map ?F [Suc (length v)..<Suc ?k])"
    using hit by simp
  moreover have "m_rest (capture_of g (advance (length v) g)) = rest0" by (simp add: g)
  ultimately show ?thesis by blast
qed

lemma rmatch_Plus_first:
  assumes "run_length P x \<noteq> 0"
  shows "\<exists>gs. rmatch (Plus P) x = advance (run_length P x) x # gs"
proof -
  let ?k = "run_length P x"
  from assms obtain j where j: "?k = Suc j" by (cases ?k) auto
  have "[1..<Suc (Suc j)] = [1..<Suc j] @ [Suc j]" by simp
  then have "rev [1..<Suc (Suc j)] = Suc j # rev [1..<Suc j]" by (simp only: rev_append rev.simps append.simps)
  then have "rmatch (Plus P) x = advance (Suc j) x # map (\<lambda>n. advance n x) (rev [1..<Suc j])"
    by (simp only: rmatch.simps j list.map)
  with j show ?thesis by simp
qed

lemma take_takeWhile: "n \<le> length (takeWhile P xs) \<Longrightarrow> list_all P (take n xs)"
proof (induction xs arbitrary: n)
  case Nil
  then show ?case by simp
next
  case (Cons a xs)
  then show ?case by (cases n) (auto split: if_splits)
qed

lemma rmatch_Plus_consumed:
  assumes "st \<in> set (rmatch (Plus P) x)"
  shows "\<exists>w. w \<noteq> [] \<and> list_all P w \<and> m_rest x = w @ m_rest st"
proof -
  from rmatch_Plus_set [OF assms] obtain n where
    n: "1 \<le> n" "n \<le> run_length P x" "st = advance n x" by blast
  from n(2) have a: "list_all P (take n (m_rest x))"
    unfolding run_length_def by (rule take_takeWhile)
  from n(2) have "n \<le> length (m_rest x)"
    unfolding run_length_def using length_takeWhile_le [of P "m_rest x"] by simp
  with n(1) have b: "take n (m_rest x) \<noteq> []" by (cases "m_rest x") auto
  have "m_rest x = take n (m_rest x) @ m_rest st" using n(3) by simp
  with a b show ?thesis by blast
qed

lemma startsWith_eq: "startsWith s p \<Longrightarrow> s = p @ drop (length p) s"
  by (induction s p rule: startsWith.induct) auto

lemma rmatch_Lit_consumed:
  "y \<in> set (rmatch (Lit p) x) \<Longrightarrow> m_rest x = p @ m_rest y"
  using rmatch_Lit_set [of y p x] startsWith_eq [of "m_rest x" p] by simp

lemma split_before_hash:
  assumes "t @ rest0 = W @ r" and "CHR ''#'' \<notin> set W"
    and "rest0 = [] \<or> (\<exists>cs. rest0 = CHR ''#'' # cs)"
  shows "\<exists>v. t = W @ v \<and> r = v @ rest0"
proof -
  from assms(1) consider u where "t = W @ u" "u @ rest0 = r" | u where "t @ u = W" "rest0 = u @ r"
    by (auto simp: append_eq_append_conv2)
  then show ?thesis
  proof cases
    case 1
    then show ?thesis by auto
  next
    case 2
    show ?thesis
    proof (cases u)
      case Nil
      with 2 show ?thesis by simp
    next
      case (Cons c cs)
      with 2(1) have "c \<in> set W" by auto
      moreover from assms(3) 2(2) Cons have "c = CHR ''#''" by auto
      ultimately show ?thesis using assms(2) by simp
    qed
  qed
qed

lemma dropWhile_all_then:
  "list_all P xs \<Longrightarrow> (ys = [] \<or> \<not> P (hd ys)) \<Longrightarrow> dropWhile P (xs @ ys) = ys"
  by (induction xs) (auto simp: dropWhile_eq_self_iff)

lemma only_number_intro:
  assumes "w1 \<noteq> []" "list_all is_space w1" "w2 \<noteq> []" "list_all is_digit w2"
    "w3 \<noteq> []" "list_all colon_or_space w3"
  shows "only_number (''Phase'' @ w1 @ w2 @ w3)"
proof -
  from assms(3,4) have d: "is_digit (hd w2)" by (cases w2) auto
  from assms(5,6) have c: "colon_or_space (hd w3)" by (cases w3) auto
  have a: "dropWhile is_space (w1 @ w2 @ w3) = w2 @ w3"
    by (rule dropWhile_all_then [OF assms(2)]) (use d assms(3) is_digit_facts in auto)
  have b: "dropWhile is_digit (w2 @ w3) = w3"
    by (rule dropWhile_all_then [OF assms(4)]) (use c is_digit_facts in auto)
  have s: "startsWith (''Phase'' @ w1 @ w2 @ w3) ''Phase''" by simp
  have e: "drop 5 (''Phase'' @ w1 @ w2 @ w3) = w1 @ w2 @ w3" by simp
  have l: "length (w2 @ w3) < length (w1 @ w2 @ w3)" "length w3 < length (w2 @ w3)"
    using assms(1,3) by simp_all
  show ?thesis
    unfolding only_number_def Let_def e a b using s l assms(5,6) by (intro conjI)
qed

lemma prefix_states:
  assumes x: "m_rest x = t @ rest0" and r: "rest0 = [] \<or> starts_mark rest0"
    and n: "\<not> only_number t" and g: "g \<in> set (rmatch phasePrefix x)"
  shows "\<exists>w v. t = w @ v \<and> v \<noteq> [] \<and> m_rest g = v @ rest0"
proof -
  from g obtain y1 where y1: "y1 \<in> set (rmatch (Lit ''Phase'') x)"
    and g1: "g \<in> set (rmatch (Seq (Plus is_space) (Seq (Plus is_digit) (Plus colon_or_space))) y1)"
    unfolding phasePrefix_unfold using rmatch_Seq_elim by blast
  from g1 obtain y2 where y2: "y2 \<in> set (rmatch (Plus is_space) y1)"
    and g2: "g \<in> set (rmatch (Seq (Plus is_digit) (Plus colon_or_space)) y2)"
    using rmatch_Seq_elim by blast
  from g2 obtain y3 where y3: "y3 \<in> set (rmatch (Plus is_digit) y2)"
    and g3: "g \<in> set (rmatch (Plus colon_or_space) y3)"
    using rmatch_Seq_elim by blast
  from rmatch_Lit_consumed [OF y1] have c0: "m_rest x = ''Phase'' @ m_rest y1" .
  from rmatch_Plus_consumed [OF y2] obtain w1 where
    w1: "w1 \<noteq> []" "list_all is_space w1" "m_rest y1 = w1 @ m_rest y2" by blast
  from rmatch_Plus_consumed [OF y3] obtain w2 where
    w2: "w2 \<noteq> []" "list_all is_digit w2" "m_rest y2 = w2 @ m_rest y3" by blast
  from rmatch_Plus_consumed [OF g3] obtain w3 where
    w3: "w3 \<noteq> []" "list_all colon_or_space w3" "m_rest y3 = w3 @ m_rest g" by blast
  let ?W = "''Phase'' @ w1 @ w2 @ w3"
  from c0 w1(3) w2(3) w3(3) x have e: "t @ rest0 = ?W @ m_rest g" by simp
  have h: "CHR ''#'' \<notin> set ?W"
    using w1(2) w2(2) w3(2)
    by (auto simp: list_all_iff is_space_def is_digit_def colon_or_space_def)
  from r have "rest0 = [] \<or> (\<exists>cs. rest0 = CHR ''#'' # cs)" using starts_mark_hd by blast
  from split_before_hash [OF e h this] obtain v where v: "t = ?W @ v" "m_rest g = v @ rest0"
    by blast
  have "v \<noteq> []"
  proof
    assume "v = []"
    with v(1) have "t = ?W" by simp
    with only_number_intro [OF w1(1,2) w2(1,2) w3(1,2)] n show False by simp
  qed
  with v show ?thesis by blast
qed

lemma section_match:
  assumes ok: "section_ok sec" and r: "rest0 = [] \<or> starts_mark rest0"
  shows "\<exists>y ys. rmatch phasePattern \<lparr>m_prev = prev, m_rest = render_section sec @ rest0, m_cap = None\<rparr>
                  = y # ys \<and> m_rest y = rest0"
proof -
  obtain ws u where sec: "sec = (ws, u)" by (cases sec)
  let ?x = "\<lparr>m_prev = prev, m_rest = render_section sec @ rest0, m_cap = None\<rparr>"
  from ok sec have ws: "ws \<noteq> []" "list_all is_space ws"
    and u: "u \<noteq> []" "\<not> is_space (hd u)" "\<not> hasHeadingMark u" "\<not> only_number u"
    by (simp_all add: section_ok_def)
  have rs: "render_section sec = ''##'' @ ws @ u" by (simp add: render_section_def sec)
  \<comment> \<open>the marker and the whitespace after it\<close>
  let ?x2 = "advance 2 ?x"
  let ?x3 = "advance (length ws) ?x2"
  have l: "rmatch (Lit ''##'') ?x = [?x2]"
    using rmatch_Lit_yes [of ?x "''##''"] by (simp add: rs numeral_2_eq_2)
  have r2: "m_rest ?x2 = ws @ u @ rest0" by (simp add: rs)
  have "takeWhile is_space (ws @ u @ rest0) = ws"
    by (rule takeWhile_all_then [OF ws(2)]) (use u in \<open>cases u; simp\<close>)
  then have rl: "run_length is_space ?x2 = length ws" by (simp only: run_length_def r2)
  with ws(1) have "run_length is_space ?x2 \<noteq> 0" by simp
  from rmatch_Plus_first [OF this] rl obtain gs where
    p: "rmatch (Plus is_space) ?x2 = ?x3 # gs" by auto
  have r3: "m_rest ?x3 = u @ rest0" by (simp add: rs)
  \<comment> \<open>the states after the optional prefix\<close>
  have states: "\<exists>v. m_rest g = v @ rest0 \<and> v \<noteq> [] \<and> \<not> hasHeadingMark v"
    if g: "g \<in> set (rmatch (Opt phasePrefix) ?x3)" for g
  proof -
    from g have "g = ?x3 \<or> g \<in> set (rmatch phasePrefix ?x3)" by (simp add: rmatch.simps(9))
    then show ?thesis
    proof
      assume "g = ?x3"
      with r3 u show ?thesis by blast
    next
      assume "g \<in> set (rmatch phasePrefix ?x3)"
      from prefix_states [OF r3 r u(4) this] obtain w v where
        v: "u = w @ v" "v \<noteq> []" "m_rest g = v @ rest0" by blast
      from u(3) v(1) have "\<not> hasHeadingMark v" using hasHeadingMark_suffix by blast
      with v show ?thesis by blast
    qed
  qed
  have ne: "rmatch (Opt phasePrefix) ?x3 \<noteq> []" by (simp add: rmatch.simps(9))
  have "\<exists>y ys. concat (map (rmatch phaseBody) (rmatch (Opt phasePrefix) ?x3)) = y # ys
          \<and> m_rest y = rest0"
  proof (rule concat_map_head [OF ne])
    fix g assume "g \<in> set (rmatch (Opt phasePrefix) ?x3)"
    from states [OF this] obtain v where "m_rest g = v @ rest0" "v \<noteq> []" "\<not> hasHeadingMark v"
      by blast
    then show "\<exists>y ys. rmatch phaseBody g = y # ys \<and> m_rest y = rest0"
      using r by (rule phaseBody_first)
  qed
  then obtain y ys where
    y: "rmatch (Seq (Opt phasePrefix) phaseBody) ?x3 = y # ys" "m_rest y = rest0"
    by (auto simp: rmatch.simps(7))
  have "rmatch phasePattern ?x
      = concat (map (rmatch (Seq (Opt phasePrefix) phaseBody)) (?x3 # gs))"
    unfolding phasePattern_unfold by (simp add: rmatch.simps(7) [of "Lit ''##''"]
       rmatch.simps(7) [of "Plus is_space"] l p)
  with y show ?thesis by simp
qed

lemma render_section_mark: "section_ok sec \<Longrightarrow> starts_mark (render_section sec @ rest0)"
  by (cases "fst sec") (simp_all add: render_section_def section_ok_def)

lemma render_section_Cons: "\<exists>cs. render_section sec @ rest0 = CHR ''#'' # cs"
  by (simp add: render_section_def)

lemma sections_rest:
  "list_all section_ok secs \<Longrightarrow>
     concat (map render_section secs) = [] \<or> starts_mark (concat (map render_section secs))"
  by (cases secs) (simp_all add: render_section_mark)

lemma exec_at_section:
  assumes "section_ok sec" and "rest0 = [] \<or> starts_mark rest0"
  shows "\<exists>y. exec phasePattern prev (render_section sec @ rest0)
               = Some (render_section sec @ rest0, y) \<and> m_rest y = rest0"
proof -
  from section_match [OF assms, of prev] obtain y ys where
    y: "rmatch phasePattern \<lparr>m_prev = prev, m_rest = render_section sec @ rest0, m_cap = None\<rparr>
          = y # ys" "m_rest y = rest0" by blast
  from render_section_Cons [of sec rest0] obtain cs where
    c: "render_section sec @ rest0 = CHR ''#'' # cs" by blast
  from y(1) have "exec phasePattern prev (render_section sec @ rest0)
               = Some (render_section sec @ rest0, y)"
    unfolding c by simp
  with y(2) show ?thesis by blast
qed

lemma exec_empty: "exec phasePattern prev [] = None"
proof -
  have "rmatch phasePattern \<lparr>m_prev = prev, m_rest = [], m_cap = None\<rparr> = []"
    using phasePattern_needs_mark [of prev "[]"] by blast
  then show ?thesis by simp
qed

lemma render_section_nonempty: "render_section sec \<noteq> []"
  by (simp add: render_section_def)

lemma sections_count:
  "list_all section_ok secs \<Longrightarrow>
     length (matchAllFrom phasePattern prev (concat (map render_section secs))) = length secs"
proof (induction secs arbitrary: prev)
  case Nil
  show ?case by (simp add: matchAllFrom.simps [of phasePattern prev "[]"] exec_empty del: exec.simps)
next
  case (Cons sec secs)
  let ?rest = "concat (map render_section secs)"
  let ?s = "render_section sec @ ?rest"
  from Cons.prems have ok: "section_ok sec" and oks: "list_all section_ok secs" by simp_all
  from exec_at_section [OF ok sections_rest [OF oks], of prev] obtain y where
    e: "exec phasePattern prev ?s = Some (?s, y)" and r: "m_rest y = ?rest" by blast
  have ml: "matched_length (?s, y) \<noteq> 0"
    using render_section_nonempty [of sec] by (simp add: matched_length_def r)
  have "matchAllFrom phasePattern prev ?s
          = to_match (?s, y) # matchAllFrom phasePattern (m_prev y) ?rest"
    using e ml r by (simp add: matchAllFrom.simps [of phasePattern prev ?s])
  with Cons.IH [OF oks, of "m_prev y"] show ?case by simp
qed

lemma exec_skip_preamble:
  "\<not> hasHeadingMark pre \<Longrightarrow> t = [] \<or> startsWith t ''##'' \<Longrightarrow>
     \<exists>prev'. exec phasePattern prev (pre @ t) = exec phasePattern prev' t"
proof (induction pre arbitrary: prev)
  case Nil
  then show ?case by auto
next
  case (Cons c pre)
  have n: "rmatch phasePattern \<lparr>m_prev = prev, m_rest = c # pre @ t, m_cap = None\<rparr> = []"
  proof (rule ccontr)
    assume "rmatch phasePattern \<lparr>m_prev = prev, m_rest = c # pre @ t, m_cap = None\<rparr> \<noteq> []"
    from phasePattern_needs_mark [OF this] obtain d ds where
      m: "c # pre @ t = CHR ''#'' # CHR ''#'' # d # ds" "is_space d" by blast
    show False
    proof (cases pre)
      case Nil
      with m Cons.prems(2) show False by (cases t; cases "tl t") (auto simp: is_space_def)
    next
      case p1: (Cons b pre')
      show False
      proof (cases pre')
        case Nil
        with p1 m Cons.prems(2) show False by (cases t) (auto simp: is_space_def)
      next
        case (Cons b' pre'')
        with p1 m Cons.prems(1) show False by simp
      qed
    qed
  qed
  from Cons.prems(1) have "\<not> hasHeadingMark pre" using hasHeadingMark_Cons by blast
  from Cons.IH [OF this Cons.prems(2), of "Some c"] n show ?case by simp
qed

lemma matchAllFrom_cong:
  "exec r prev s = exec r prev' s' \<Longrightarrow> matchAllFrom r prev s = matchAllFrom r prev' s'"
  by (simp add: matchAllFrom.simps [of r prev s] matchAllFrom.simps [of r prev' s'])

lemma sectioned_matches:
  assumes "\<not> hasHeadingMark pre" and "list_all section_ok secs"
  shows "length (matchAll phasePattern (pre @ concat (map render_section secs))) = length secs"
proof -
  let ?t = "concat (map render_section secs)"
  have "?t = [] \<or> startsWith ?t ''##''"
    using sections_rest [OF assms(2)] by (auto simp: starts_mark_iff)
  from exec_skip_preamble [OF assms(1) this, of None] obtain prev' where
    "exec phasePattern None (pre @ ?t) = exec phasePattern prev' ?t" by blast
  then have "matchAll phasePattern (pre @ ?t) = matchAllFrom phasePattern prev' ?t"
    unfolding matchAll_def by (rule matchAllFrom_cong)
  with sections_count [OF assms(2), of prev'] show ?thesis by simp
qed

lemma matchPhase_fields:
  "matchPhase k m = Inr p \<Longrightarrow>
     phase_id p = ''phase-'' @ natToString (k + 1) \<and> order p = k + 1
     \<and> phase_dependencies p = (if k = 0 then [] else [''phase-'' @ natToString k])"
  by (auto simp: matchPhase_def Let_def split: option.splits)

lemma map_by_index:
  "length ps = n \<Longrightarrow> (\<And>k. k < n \<Longrightarrow> f (ps ! k) = g k) \<Longrightarrow> map f ps = map g [0..<n]"
  by (rule nth_equalityI) auto

lemma extractPhases_numbered:
  "\<exists>ps. extractPhases markdown = Inr ps \<and> ps \<noteq> []
      \<and> length ps = max 1 (length (matchAll phasePattern markdown))
      \<and> map phase_id ps = map (\<lambda>k. ''phase-'' @ natToString (k + 1)) [0..<length ps]
      \<and> map order ps = map (\<lambda>k. k + 1) [0..<length ps]
      \<and> map phase_dependencies ps
           = map (\<lambda>k. if k = 0 then [] else [''phase-'' @ natToString k]) [0..<length ps]"
proof (cases "matchAll phasePattern markdown = []")
  case True
  with extractPhases_shape [of markdown]
  have e: "extractPhases markdown = Inr [implementationPhase markdown]" by auto
  have n: "natToString (Suc 0) = ''1''" by code_simp
  have "map phase_id [implementationPhase markdown]
          = map (\<lambda>k. ''phase-'' @ natToString (k + 1)) [0..<1]"
    "map order [implementationPhase markdown] = map (\<lambda>k. k + 1) [0..<1]"
    "map phase_dependencies [implementationPhase markdown]
          = map (\<lambda>k. if k = 0 then [] else [''phase-'' @ natToString k]) [0..<1]"
    by (simp_all add: implementationPhase_def n)
  with e True show ?thesis by simp
next
  case False
  let ?ms = "matchAll phasePattern markdown"
  from extractPhases_shape [of markdown] False obtain ps where
    ps: "extractPhases markdown = Inr ps" "length ps = length ?ms"
    and f: "\<forall>k < length ps. matchPhase k (?ms ! k) = Inr (ps ! k)" by auto
  from ps(2) False have ne: "ps \<noteq> []" by auto
  from ps(2) False have mx: "length ps = max 1 (length ?ms)" by (cases ?ms) simp_all
  have fields: "phase_id (ps ! k) = ''phase-'' @ natToString (k + 1) \<and> order (ps ! k) = k + 1
     \<and> phase_dependencies (ps ! k) = (if k = 0 then [] else [''phase-'' @ natToString k])"
    if "k < length ps" for k
  proof -
    from that f have "matchPhase k (?ms ! k) = Inr (ps ! k)" by simp
    then show ?thesis by (rule matchPhase_fields)
  qed
  have a: "map phase_id ps = map (\<lambda>k. ''phase-'' @ natToString (k + 1)) [0..<length ps]"
    by (rule map_by_index [OF refl]) (simp add: fields)
  have b: "map order ps = map (\<lambda>k. k + 1) [0..<length ps]"
    by (rule map_by_index [OF refl]) (simp add: fields)
  have c: "map phase_dependencies ps
               = map (\<lambda>k. if k = 0 then [] else [''phase-'' @ natToString k]) [0..<length ps]"
    by (rule map_by_index [OF refl]) (simp add: fields)
  from ps(1) ne mx a b c show ?thesis by blast
qed

subsection \<open>The headings of a document made of sections\<close>

lemma splitLines_nonempty: "splitLines s \<noteq> []"
  by (induction s) (auto split: list.splits)

lemma splitLines_append:
  "splitLines (a @ CHR 0x0A # b) = splitLines a @ splitLines b"
proof (induction a)
  case Nil
  show ?case by simp
next
  case (Cons c a)
  obtain l ls where l: "splitLines a = l # ls"
    using splitLines_nonempty [of a] by (cases "splitLines a") auto
  with Cons show ?case by simp
qed

lemma empty_line_no_heading: "\<not> is_h2_line []"
  by (simp add: is_h2_line_def)

lemma no_heading_line_append:
  "no_heading_line (a @ CHR 0x0A # b) \<longleftrightarrow> no_heading_line a \<and> no_heading_line b"
  by (simp add: no_heading_line_def splitLines_append)

lemma no_heading_line_butlast:
  assumes "no_heading_line t" and "t \<noteq> []" and "last t = CHR 0x0A"
  shows "no_heading_line (butlast t)"
proof -
  from assms(2,3) have "t = butlast t @ CHR 0x0A # []"
    using append_butlast_last_id [of t] by simp
  with assms(1) no_heading_line_append [of "butlast t" "[]"] show ?thesis by simp
qed

lemma space_line_no_heading: "is_space c \<Longrightarrow> \<not> is_h2_line (c # l)"
  by (auto simp: is_h2_line_def is_space_def)

lemma no_heading_line_space:
  "list_all is_space w \<Longrightarrow> no_heading_line u \<Longrightarrow> no_heading_line (w @ u)"
proof (induction w)
  case Nil
  then show ?case by simp
next
  case (Cons c w)
  from Cons have ih: "no_heading_line (w @ u)" and c: "is_space c" by simp_all
  obtain l ls where l: "splitLines (w @ u) = l # ls"
    using splitLines_nonempty [of "w @ u"] by (cases "splitLines (w @ u)") auto
  show ?case
  proof (cases "c = CHR 0x0A")
    case True
    with ih show ?thesis by (simp add: no_heading_line_def empty_line_no_heading)
  next
    case False
    with ih l space_line_no_heading [OF c] show ?thesis by (simp add: no_heading_line_def)
  qed
qed

lemma marked_text_one_h2:
  assumes w: "w \<noteq> []" "list_all is_space w" and u: "no_heading_line u"
  shows "length (filter is_h2_line (splitLines (''##'' @ w @ u))) = 1"
proof -
  obtain l ls where l: "splitLines (w @ u) = l # ls"
    using splitLines_nonempty [of "w @ u"] by (cases "splitLines (w @ u)") auto
  then have s: "splitLines (''##'' @ w @ u) = (''##'' @ l) # ls" by simp
  from w obtain c w' where c: "w = c # w'" "is_space c" by (cases w) auto
  have "l = [] \<or> (\<exists>l'. l = c # l')"
    using l c(1) by (cases "c = CHR 0x0A") (auto split: list.splits)
  with c(2) have h: "is_h2_line (''##'' @ l)" by (auto simp: is_h2_line_def)
  from no_heading_line_space [OF w(2) u] l have "filter is_h2_line ls = []"
    by (simp add: no_heading_line_def filter_empty_conv list_all_iff)
  with s h show ?thesis by simp
qed

lemma section_one_h2:
  assumes "section_ok sec" and "no_heading_line (snd sec)"
  shows "length (filter is_h2_line (splitLines (render_section sec))) = 1"
  using marked_text_one_h2 [of "fst sec" "snd sec"] assms
  by (simp add: section_ok_def render_section_def)

lemma section_line_one_h2:
  assumes ok: "section_ok sec" and n: "no_heading_line (snd sec)"
    and l: "last (snd sec) = CHR 0x0A"
  shows "length (filter is_h2_line (splitLines (render_section sec @ rest0)))
         = 1 + length (filter is_h2_line (splitLines rest0))"
proof -
  from ok have w: "fst sec \<noteq> []" "list_all is_space (fst sec)" and ne: "snd sec \<noteq> []"
    by (simp_all add: section_ok_def)
  from ne l have u: "snd sec = butlast (snd sec) @ [CHR 0x0A]"
    using append_butlast_last_id [of "snd sec"] by simp
  have "render_section sec @ rest0 = ''##'' @ fst sec @ snd sec @ rest0"
    by (simp add: render_section_def)
  also have "\<dots> = (''##'' @ fst sec @ butlast (snd sec)) @ CHR 0x0A # rest0"
    using u by (metis append_Cons append_Nil append_assoc)
  finally have "splitLines (render_section sec @ rest0)
      = splitLines (''##'' @ fst sec @ butlast (snd sec)) @ splitLines rest0"
    by (simp only: splitLines_append)
  with marked_text_one_h2 [OF w no_heading_line_butlast [OF n ne l]] show ?thesis by simp
qed

lemma sections_headings:
  "list_all section_ok secs \<Longrightarrow>
   list_all (\<lambda>sec. no_heading_line (snd sec)) secs \<Longrightarrow>
   list_all (\<lambda>sec. last (snd sec) = CHR 0x0A) (butlast secs) \<Longrightarrow>
   length (filter is_h2_line (splitLines (concat (map render_section secs)))) = length secs"
proof (induction secs)
  case Nil
  show ?case by (simp add: is_h2_line_def)
next
  case (Cons sec secs)
  from Cons.prems(1) have ok: "section_ok sec" and oks: "list_all section_ok secs" by simp_all
  from Cons.prems(2) have n: "no_heading_line (snd sec)"
    and ns: "list_all (\<lambda>sec. no_heading_line (snd sec)) secs" by simp_all
  show ?case
  proof (cases "secs = []")
    case True
    with section_one_h2 [OF ok n] show ?thesis by simp
  next
    case False
    with Cons.prems(3) have l: "last (snd sec) = CHR 0x0A"
      and ls: "list_all (\<lambda>sec. last (snd sec) = CHR 0x0A) (butlast secs)"
      by simp_all
    from section_line_one_h2 [OF ok n l, of "concat (map render_section secs)"]
      Cons.IH [OF oks ns ls]
    show ?thesis by simp
  qed
qed

lemma document_headings:
  assumes "list_all section_ok secs" and "on_own_lines pre secs"
  shows "length (spec_h2_headings (pre @ concat (map render_section secs))) = length secs"
proof -
  let ?t = "concat (map render_section secs)"
  from assms(2) have ns: "list_all (\<lambda>sec. no_heading_line (snd sec)) secs"
    and ls: "list_all (\<lambda>sec. last (snd sec) = CHR 0x0A) (butlast secs)"
    and np: "no_heading_line pre"
    by (simp_all add: on_own_lines_def)
  note n = sections_headings [OF assms(1) ns ls]
  show ?thesis
  proof (cases "pre = []")
    case True
    with n show ?thesis by (simp add: spec_h2_headings_def)
  next
    case False
    with assms(2) have l: "last pre = CHR 0x0A" by (simp add: on_own_lines_def)
    with False have p: "pre = butlast pre @ [CHR 0x0A]"
      using append_butlast_last_id [of pre] by simp
    from no_heading_line_butlast [OF np False l]
    have e: "filter is_h2_line (splitLines (butlast pre)) = []"
      by (simp add: no_heading_line_def filter_empty_conv list_all_iff)
    from p have "pre @ ?t = butlast pre @ CHR 0x0A # ?t" by (metis append_Cons append_Nil append_assoc)
    then have "splitLines (pre @ ?t) = splitLines (butlast pre) @ splitLines ?t"
      by (simp only: splitLines_append)
    with e n show ?thesis by (simp add: spec_h2_headings_def)
  qed
qed

subsection \<open>Sections with no text\<close>

text \<open>
  Outside these documents the headings and the phases are counted apart: after a
  heading with whitespace only, or with a phase number only, the next heading is read
  as the text of that section and starts no phase; a bare \<open>##\<close> on the last line is a
  heading and starts no phase; \<open>##\<close> and whitespace in the middle of a line start a
  phase and are no heading.
\<close>

lemma empty_sections_miscount:
  "length (spec_h2_headings ''## \<newline>## A'') = 2 \<and> length (matchAll phasePattern ''## \<newline>## A'') = 1"
  "length (spec_h2_headings ''## Phase 1:\<newline>## A'') = 2
     \<and> length (matchAll phasePattern ''## Phase 1:\<newline>## A'') = 1"
  "length (spec_h2_headings ''## A\<newline>##'') = 2 \<and> length (matchAll phasePattern ''## A\<newline>##'') = 1"
  "length (spec_h2_headings ''x ## A'') = 0 \<and> length (matchAll phasePattern ''x ## A'') = 1"
  by code_simp+

subsection \<open>Tasks and phases\<close>

lemma no_files_generic: "findFiles content = [] \<Longrightarrow> extractTasks content = [genericTask]"
  by (simp add: extractTasks_def)

lemma fileTask_id: "task_id (fileTask content file) = ''task-'' @ file @ ''1''"
  by (simp add: fileTask_def Let_def)

lemma extractTasks_ids:
  "findFiles content \<noteq> [] \<Longrightarrow>
     map task_id (extractTasks content) = map (\<lambda>file. ''task-'' @ file @ ''1'') (findFiles content)"
  by (simp add: extractTasks_def Let_def fileTask_id comp_def)

lemma matchPhase_name: "matchPhase k m = Inr p \<Longrightarrow> phase_name p = capture_name m"
  by (auto simp: matchPhase_def Let_def capture_name_def split: option.splits)

lemma extractPhases_matches:
  assumes "matchAll phasePattern markdown \<noteq> []"
  shows "\<exists>ps. extractPhases markdown = Inr ps
           \<and> length ps = length (matchAll phasePattern markdown)
           \<and> map phase_name ps = map capture_name (matchAll phasePattern markdown)"
proof -
  let ?ms = "matchAll phasePattern markdown"
  from extractPhases_shape [of markdown] assms obtain ps where
    ps: "extractPhases markdown = Inr ps" "length ps = length ?ms"
    and f: "\<forall>k < length ps. matchPhase k (?ms ! k) = Inr (ps ! k)" by auto
  have "map phase_name ps = map capture_name ?ms"
  proof (rule nth_equalityI)
    show "length (map phase_name ps) = length (map capture_name ?ms)" using ps(2) by simp
  next
    fix k assume "k < length (map phase_name ps)"
    then have k: "k < length ps" by simp
    with f have "matchPhase k (?ms ! k) = Inr (ps ! k)" by simp
    from matchPhase_name [OF this] k ps(2)
    show "map phase_name ps ! k = map capture_name ?ms ! k" by simp
  qed
  with ps show ?thesis by blast
qed

lemma parsePlan_phases:
  "extractPhases markdown = Inr ps \<Longrightarrow>
     \<exists>plan. parsePlanFromMarkdown now now' markdown description analysis = Inr plan
        \<and> phases plan = ps"
  by (simp add: parsePlanFromMarkdown_def Let_def)

subsection \<open>The extractor is total\<close>

text \<open>
  C2, as the specification states it, fails: \<open>notes_markdown\<close> has a third-level heading
  and no second-level heading, and its plan has one phase named \<open>Notes\<close>, not
  \<open>Implementation\<close>.
\<close>

theorem no_heading_counterexample:
  "spec_h2_headings notes_markdown = []
   \<and> (\<exists>plan. parsePlanFromMarkdown 1 2 notes_markdown ''Logging'' demo_analysis = Inr plan
         \<and> map phase_name (phases plan) = [''Notes''])"
proof -
  have h: "spec_h2_headings notes_markdown = []" by code_simp
  have m: "matchAll phasePattern notes_markdown
             = [(''## Notes'', Some ''Notes'')]"
    by code_simp
  have n: "map capture_name (matchAll phasePattern notes_markdown) = [''Notes'']"
    unfolding m by code_simp
  from m have "matchAll phasePattern notes_markdown \<noteq> []" by simp
  from extractPhases_matches [OF this] n obtain ps where
    "extractPhases notes_markdown = Inr ps" "map phase_name ps = [''Notes'']"
    by auto
  with parsePlan_phases [of notes_markdown ps 1 2 "''Logging''" demo_analysis] h
  show ?thesis by auto
qed

text \<open>
  C2, amended. For every markdown text, request and analysis, \<open>parsePlanFromMarkdown\<close>
  returns a plan and raises nothing: the plan is \<open>ready\<close>, has at least one phase, and
  every phase has at least one task. When no \<open>##\<close> in the text is followed by
  whitespace, the plan has exactly one phase, named \<open>Implementation\<close>, with the tasks
  of the whole text; when no file path is found either, that is the single placeholder
  task with file \<open>implementation\<close> and type \<open>modify\<close>.
\<close>

theorem extractor_total:
  "\<exists>plan. parsePlanFromMarkdown now now' markdown description analysis = Inr plan
      \<and> phases plan \<noteq> []
      \<and> list_all (\<lambda>p. tasks p \<noteq> []) (phases plan)
      \<and> plan_description plan = description
      \<and> plan_status plan = Ready
      \<and> (\<not> hasHeadingMark markdown \<longrightarrow>
            (\<exists>p. phases plan = [p]
                \<and> phase_id p = ''phase-1'' \<and> order p = 1 \<and> phase_dependencies p = []
                \<and> phase_name p = ''Implementation''
                \<and> tasks p = extractTasks markdown
                \<and> (findFiles markdown = [] \<longrightarrow>
                      (\<exists>t. tasks p = [t] \<and> task_file t = ''implementation''
                           \<and> task_type t = Modify))))"
proof -
  from extractPhases_shape [of markdown] obtain ps where
    ps: "extractPhases markdown = Inr ps"
    and sh: "if matchAll phasePattern markdown = [] then ps = [implementationPhase markdown]
          else length ps = length (matchAll phasePattern markdown)
             \<and> (\<forall>k < length ps. matchPhase k (matchAll phasePattern markdown ! k) = Inr (ps ! k))"
    by blast
  from ps obtain plan where
    plan: "parsePlanFromMarkdown now now' markdown description analysis = Inr plan"
    and f: "phases plan = ps" "plan_description plan = description" "plan_status plan = Ready"
    by (simp add: parsePlanFromMarkdown_def Let_def)
  from extractPhases_tasks [OF ps] f have
    t: "phases plan \<noteq> []" "list_all (\<lambda>p. tasks p \<noteq> []) (phases plan)" by simp_all
  have h: "\<exists>p. phases plan = [p]
                \<and> phase_id p = ''phase-1'' \<and> order p = 1 \<and> phase_dependencies p = []
                \<and> phase_name p = ''Implementation''
                \<and> tasks p = extractTasks markdown
                \<and> (findFiles markdown = [] \<longrightarrow>
                      (\<exists>t. tasks p = [t] \<and> task_file t = ''implementation''
                           \<and> task_type t = Modify))"
    if "\<not> hasHeadingMark markdown"
  proof -
    from no_mark_no_match [OF that] sh f have "phases plan = [implementationPhase markdown]"
      by simp
    then show ?thesis
      by (simp add: implementationPhase_def no_files_generic genericTask_def)
  qed
  from plan f t h show ?thesis by blast
qed

theorem extractor_total_witness:
  "\<not> hasHeadingMark plain_markdown \<and> findFiles plain_markdown = []
   \<and> (\<exists>plan. parsePlanFromMarkdown 1 2 plain_markdown ''Better logging'' demo_analysis = Inr plan
         \<and> list_all (\<lambda>p. tasks p \<noteq> []) (phases plan)
         \<and> (\<exists>p t. phases plan = [p] \<and> phase_name p = ''Implementation''
                 \<and> tasks p = [t] \<and> task_file t = ''implementation'' \<and> task_type t = Modify))"
proof -
  have a: "\<not> hasHeadingMark plain_markdown" by code_simp
  have b: "findFiles plain_markdown = []" by code_simp
  from extractor_total [of 1 2 plain_markdown "''Better logging''" demo_analysis] a b
  show ?thesis by blast
qed

subsection \<open>One phase per section\<close>

text \<open>
  C3, as the specification states it, fails: \<open>nested_markdown\<close> has one second-level
  heading, with a third-level heading below it, and two phases are extracted.
\<close>

theorem heading_count_counterexample:
  "spec_h2_headings nested_markdown = [''## A'']
   \<and> (\<exists>ps. extractPhases nested_markdown = Inr ps \<and> length ps = 2)"
proof -
  have h: "spec_h2_headings nested_markdown = [''## A'']" by code_simp
  have m: "length (matchAll phasePattern nested_markdown) = 2" by code_simp
  then have "matchAll phasePattern nested_markdown \<noteq> []" by auto
  from extractPhases_matches [OF this] m h show ?thesis by auto
qed

text \<open>
  C3, amended. For every markdown document, extraction yields one phase per match of
  \<open>phasePattern\<close>, and one phase when there is no match; the phases extracted, \<open>n\<close> of
  them, have the ids \<open>phase-1\<close> to \<open>phase-n\<close> and the orders 1 to \<open>n\<close>; phase 1 depends
  on nothing and phase \<open>k > 1\<close> on \<open>phase-(k-1)\<close> alone. For a document made of a text in which \<open>##\<close> is nowhere followed by whitespace
  and of \<open>N \<ge> 1\<close> sections (\<open>section_ok\<close>: \<open>##\<close>, whitespace, then a text that is not
  empty, does not begin with whitespace, has no \<open>##\<close> followed by whitespace in it and
  is more than a phase number), \<open>n\<close> is \<open>N\<close>. When moreover every section begins a line
  and no other line is a second-level heading (\<open>on_own_lines\<close>), \<open>N\<close> is the number of
  second-level headings of the document.
\<close>

theorem document_phases:
  "\<exists>ps. extractPhases markdown = Inr ps
      \<and> length ps = max 1 (length (matchAll phasePattern markdown))
      \<and> map phase_id ps = map (\<lambda>k. ''phase-'' @ natToString (k + 1)) [0..<length ps]
      \<and> map order ps = map (\<lambda>k. k + 1) [0..<length ps]
      \<and> map phase_dependencies ps
           = map (\<lambda>k. if k = 0 then [] else [''phase-'' @ natToString k]) [0..<length ps]
      \<and> (markdown = pre @ concat (map render_section secs) \<and> secs \<noteq> []
           \<and> \<not> hasHeadingMark pre \<and> list_all section_ok secs
          \<longrightarrow> length ps = length secs
              \<and> (on_own_lines pre secs \<longrightarrow> length (spec_h2_headings markdown) = length secs))"
proof -
  from extractPhases_numbered [of markdown] obtain ps where
    ps: "extractPhases markdown = Inr ps" "ps \<noteq> []"
    and m: "length ps = max 1 (length (matchAll phasePattern markdown))"
    and a: "map phase_id ps = map (\<lambda>k. ''phase-'' @ natToString (k + 1)) [0..<length ps]"
    and b: "map order ps = map (\<lambda>k. k + 1) [0..<length ps]"
    and c: "map phase_dependencies ps
           = map (\<lambda>k. if k = 0 then [] else [''phase-'' @ natToString k]) [0..<length ps]"
    by blast
  have d: "length ps = length secs
      \<and> (on_own_lines pre secs \<longrightarrow> length (spec_h2_headings markdown) = length secs)"
    if md: "markdown = pre @ concat (map render_section secs)" and ne: "secs \<noteq> []"
      and p: "\<not> hasHeadingMark pre" and ok: "list_all section_ok secs"
  proof -
    from sectioned_matches [OF p ok] md
    have l: "length (matchAll phasePattern markdown) = length secs" by simp
    with ne m have "length ps = length secs" by (cases secs) simp_all
    moreover have "length (spec_h2_headings markdown) = length secs" if "on_own_lines pre secs"
      unfolding md by (rule document_headings [OF ok that])
    ultimately show ?thesis by simp
  qed
  from ps(1) m a b c d show ?thesis by blast
qed

theorem document_phases_witness:
  "\<not> hasHeadingMark varied_preamble \<and> list_all section_ok varied_sections
   \<and> on_own_lines varied_preamble varied_sections
   \<and> varied_markdown = varied_preamble @ concat (map render_section varied_sections)
   \<and> length (spec_h2_headings varied_markdown) = 2
   \<and> (\<exists>ps. extractPhases varied_markdown = Inr ps
          \<and> map phase_id ps = [''phase-1'', ''phase-2'']
          \<and> map order ps = [1, 2]
          \<and> map phase_dependencies ps = [[], [''phase-1'']])"
proof -
  have a: "\<not> hasHeadingMark varied_preamble" by code_simp
  have b: "list_all section_ok varied_sections" by code_simp
  have o: "on_own_lines varied_preamble varied_sections" by code_simp
  have c: "varied_markdown = varied_preamble @ concat (map render_section varied_sections)"
    by code_simp
  have d: "varied_sections \<noteq> []" by (simp add: varied_sections_def)
  have l: "length varied_sections = 2" by (simp add: varied_sections_def)
  have e: "map (\<lambda>k. ''phase-'' @ natToString (k + 1)) [0..<2] = [''phase-1'', ''phase-2'']"
    "map (\<lambda>k. k + 1) [0..<2] = [1, 2::nat]"
    "map (\<lambda>k. if k = 0 then [] else [''phase-'' @ natToString k]) [0..<2] = [[], [''phase-1'']]"
    by code_simp+
  from document_phases [of varied_markdown varied_preamble varied_sections] obtain ps where
    ps: "extractPhases varied_markdown = Inr ps"
    and f: "map phase_id ps = map (\<lambda>k. ''phase-'' @ natToString (k + 1)) [0..<length ps]"
      "map order ps = map (\<lambda>k. k + 1) [0..<length ps]"
      "map phase_dependencies ps
           = map (\<lambda>k. if k = 0 then [] else [''phase-'' @ natToString k]) [0..<length ps]"
    and i: "varied_markdown = varied_preamble @ concat (map render_section varied_sections)
           \<and> varied_sections \<noteq> []
           \<and> \<not> hasHeadingMark varied_preamble \<and> list_all section_ok varied_sections
          \<longrightarrow> length ps = length varied_sections
              \<and> (on_own_lines varied_preamble varied_sections
                  \<longrightarrow> length (spec_h2_headings varied_markdown) = length varied_sections)"
    by (elim exE conjE)
  from i a b c d o l have n: "length ps = 2" and h: "length (spec_h2_headings varied_markdown) = 2"
    by simp_all
  from ps f have x: "\<exists>ps. extractPhases varied_markdown = Inr ps
          \<and> map phase_id ps = [''phase-1'', ''phase-2'']
          \<and> map order ps = [1, 2]
          \<and> map phase_dependencies ps = [[], [''phase-1'']]"
    unfolding n e by (intro exI conjI)
  show ?thesis by (rule conjI [OF a conjI [OF b conjI [OF o conjI [OF c conjI [OF h x]]]]])
qed

subsection \<open>The ids of the tasks\<close>

text \<open>
  C6. The claim is that the first task of a phase has the id \<open>task-1\<close> and the second
  \<open>task-2\<close>. The program, on a text that names the files \<open>a.ts\<close> and \<open>b.ts\<close>, gives
  the ids \<open>task-a.ts1\<close> and \<open>task-b.ts1\<close>: the second argument of the callback of
  \<open>Set.prototype.forEach\<close> is the element, not its index.
\<close>

theorem task_ids_evaluated:
  "map task_id (extractTasks two_files_text) = [''task-a.ts1'', ''task-b.ts1'']"
proof -
  have f: "findFiles two_files_text = [''a.ts'', ''b.ts'']" by code_simp
  then have "findFiles two_files_text \<noteq> []" by simp
  from extractTasks_ids [OF this] show ?thesis unfolding f by simp
qed

subsection \<open>The names of the phases\<close>

text \<open>
  C7. The claim is that the name of a phase is the text of its heading line (\<open>Setup\<close>
  for the heading \<open>Phase 1: Setup\<close>), without the body of the section. The program
  captures up to the next \<open>##\<close> or the end of the text: the first phase of
  \<open>phased_markdown\<close> is named with its heading and its body.
\<close>

theorem phase_names_evaluated:
  "\<exists>ps. extractPhases phased_markdown = Inr ps
      \<and> map phase_name ps = [''Setup\<newline>Run'', ''Test'']"
proof -
  have m: "map capture_name (matchAll phasePattern phased_markdown)
             = [''Setup\<newline>Run'', ''Test'']"
    by code_simp
  then have "matchAll phasePattern phased_markdown \<noteq> []" by auto
  from extractPhases_matches [OF this] m show ?thesis by auto
qed

end
